theory Spec2Isabelle
  imports Main "HOL-Library.Sublist"
begin

section \<open>Strings and characters of the source language\<close>

text \<open>
  A JavaScript string is modelled as an Isabelle \<open>string\<close>: the list of its code units,
  restricted to the code units below 256. Every string of the examples is ASCII.
\<close>

definition code :: "char \<Rightarrow> nat" where
  "code c = of_char c"

definition isLineTerminator :: "char \<Rightarrow> bool" where
  \<comment> \<open>the characters that \<open>.\<close> refuses and at which \<open>^\<close> and \<open>$\<close> match under the m flag\<close>
  "isLineTerminator c = (code c = 10 \<or> code c = 13)"

definition isSpace :: "char \<Rightarrow> bool" where
  \<comment> \<open>\<open>\s\<close>, also the characters removed by \<open>trim\<close>: TAB, LF, VT, FF, CR, SP, NBSP\<close>
  "isSpace c = (code c = 9 \<or> code c = 10 \<or> code c = 11 \<or> code c = 12 \<or> code c = 13
                \<or> code c = 32 \<or> code c = 160)"

definition isDigit :: "char \<Rightarrow> bool" where
  \<comment> \<open>\<open>\d\<close>\<close>
  "isDigit c = (48 \<le> code c \<and> code c \<le> 57)"

definition isUpper :: "char \<Rightarrow> bool" where
  "isUpper c = (65 \<le> code c \<and> code c \<le> 90)"

definition isLower :: "char \<Rightarrow> bool" where
  "isLower c = (97 \<le> code c \<and> code c \<le> 122)"

definition isWord :: "char \<Rightarrow> bool" where
  \<comment> \<open>\<open>\w\<close>: letters, digits and the underscore\<close>
  "isWord c = (isUpper c \<or> isLower c \<or> isDigit c \<or> code c = 95)"

definition isDot :: "char \<Rightarrow> bool" where
  \<comment> \<open>\<open>.\<close>\<close>
  "isDot c = (\<not> isLineTerminator c)"

definition isAny :: "char \<Rightarrow> bool" where
  \<comment> \<open>\<open>[\s\S]\<close>\<close>
  "isAny c = True"

definition lowerChar :: "char \<Rightarrow> char" where
  \<comment> \<open>\<open>toLowerCase\<close> on one code unit below 256\<close>
  "lowerChar c =
     (if isUpper c \<or> (192 \<le> code c \<and> code c \<le> 222 \<and> code c \<noteq> 215)
      then char_of (code c + 32) else c)"

definition canonicalize :: "char \<Rightarrow> char" where
  \<comment> \<open>the case folding of the i flag, on the ASCII letters the patterns use\<close>
  "canonicalize c = (if isLower c then char_of (code c - 32) else c)"

definition toLowerCase :: "string \<Rightarrow> string" where
  "toLowerCase s = map lowerChar s"

definition trim :: "string \<Rightarrow> string" where
  "trim s = rev (dropWhile isSpace (rev (dropWhile isSpace s)))"

definition startsWith :: "string \<Rightarrow> string \<Rightarrow> bool" where
  "startsWith s w = (take (length w) s = w)"

fun includes_str :: "string \<Rightarrow> string \<Rightarrow> bool" where
  "includes_str [] w = (w = [])"
| "includes_str (c # cs) w = (startsWith (c # cs) w \<or> includes_str cs w)"

fun join :: "string \<Rightarrow> string list \<Rightarrow> string" where
  "join sep [] = []"
| "join sep [x] = x"
| "join sep (x # y # ys) = x @ sep @ join sep (y # ys)"

fun split_on :: "char \<Rightarrow> string \<Rightarrow> string list" where
  \<comment> \<open>\<open>s.split(c)\<close> for a one-character separator\<close>
  "split_on d [] = [[]]"
| "split_on d (c # cs) =
     (if c = d then [] # split_on d cs
      else (case split_on d cs of [] \<Rightarrow> [[c]] | l # ls \<Rightarrow> (c # l) # ls))"

section \<open>Regular expressions with the backtracking order of the source language\<close>

datatype re =
    Eps
  | Chr char
  | ChrI char
  | Cls "char \<Rightarrow> bool"
  | Seq re re
  | Alt re re
  | Star re
  | LazyStar re
  | Grp nat re
  | InputStart
  | LineStart
  | InputEnd
  | LineEnd

text \<open>
  A position of the matcher: the character before it (\<open>None\<close> at the start of the
  input), the rest of the input, and the captures made so far (the newest first).
\<close>

datatype mstate = MState (prev: "char option") (rest: string) (caps: "(nat \<times> string) list")

text \<open>
  \<open>rx r st\<close> lists every way \<open>r\<close> matches at \<open>st\<close>, in the order in which a backtracking
  matcher tries them: the greedy star tries one more iteration before stopping, the lazy
  star stops before trying one more, an alternative tries its left side first. An
  iteration of a star that consumes nothing is refused, as in the source language.
\<close>

function rx :: "re \<Rightarrow> mstate \<Rightarrow> mstate list" where
  "rx Eps st = [st]"
| "rx (Chr c) st =
     (case rest st of [] \<Rightarrow> []
      | x # xs \<Rightarrow> if x = c then [MState (Some x) xs (caps st)] else [])"
| "rx (ChrI c) st =
     (case rest st of [] \<Rightarrow> []
      | x # xs \<Rightarrow> if canonicalize x = canonicalize c then [MState (Some x) xs (caps st)] else [])"
| "rx (Cls P) st =
     (case rest st of [] \<Rightarrow> []
      | x # xs \<Rightarrow> if P x then [MState (Some x) xs (caps st)] else [])"
| "rx (Seq a b) st = concat (map (rx b) (rx a st))"
| "rx (Alt a b) st = rx a st @ rx b st"
| "rx (Star a) st =
     concat (map (rx (Star a))
       (filter (\<lambda>st'. length (rest st') < length (rest st)) (rx a st))) @ [st]"
| "rx (LazyStar a) st =
     st # concat (map (rx (LazyStar a))
       (filter (\<lambda>st'. length (rest st') < length (rest st)) (rx a st)))"
| "rx (Grp n a) st =
     map (\<lambda>st'. MState (prev st') (rest st')
            ((n, take (length (rest st) - length (rest st')) (rest st)) # caps st'))
         (rx a st)"
| "rx InputStart st = (if prev st = None then [st] else [])"
| "rx LineStart st =
     (case prev st of None \<Rightarrow> [st] | Some c \<Rightarrow> if isLineTerminator c then [st] else [])"
| "rx InputEnd st = (if rest st = [] then [st] else [])"
| "rx LineEnd st =
     (case rest st of [] \<Rightarrow> [st] | c # _ \<Rightarrow> if isLineTerminator c then [st] else [])"
  by pat_completeness auto
termination
  by (relation "measures [\<lambda>(r, st). size r, \<lambda>(r, st). length (rest st)]") auto

definition Plus :: "re \<Rightarrow> re" where
  \<comment> \<open>\<open>a+\<close>\<close>
  "Plus a = Seq a (Star a)"

definition LazyPlus :: "re \<Rightarrow> re" where
  \<comment> \<open>\<open>a+?\<close>\<close>
  "LazyPlus a = Seq a (LazyStar a)"

definition Opt :: "re \<Rightarrow> re" where
  \<comment> \<open>\<open>a?\<close>\<close>
  "Opt a = Alt a Eps"

fun Lit :: "string \<Rightarrow> re" where
  \<comment> \<open>a run of literal characters\<close>
  "Lit [] = Eps"
| "Lit (c # cs) = Seq (Chr c) (Lit cs)"

fun LitI :: "string \<Rightarrow> re" where
  \<comment> \<open>a run of literal characters under the i flag\<close>
  "LitI [] = Eps"
| "LitI (c # cs) = Seq (ChrI c) (LitI cs)"

fun Seqs :: "re list \<Rightarrow> re" where
  "Seqs [] = Eps"
| "Seqs [r] = r"
| "Seqs (r # rs) = Seq r (Seqs rs)"

fun Alts :: "re list \<Rightarrow> re" where
  "Alts [] = Cls (\<lambda>_. False)"
| "Alts [r] = r"
| "Alts (r # rs) = Alt r (Alts rs)"

definition exec_at :: "re \<Rightarrow> char option \<Rightarrow> string \<Rightarrow> mstate option" where
  \<comment> \<open>the match the backtracking matcher finds at one position: the first in its order\<close>
  "exec_at r p s = (case rx r (MState p s []) of [] \<Rightarrow> None | m # _ \<Rightarrow> Some m)"

definition grp :: "mstate \<Rightarrow> nat \<Rightarrow> string option" where
  \<comment> \<open>capture \<open>n\<close> of a match, \<open>None\<close> for \<open>undefined\<close>\<close>
  "grp m n = map_of (caps m) n"

definition grps :: "mstate \<Rightarrow> nat \<Rightarrow> string" where
  \<comment> \<open>\<open>$n\<close> in a replacement string: the capture, empty when undefined\<close>
  "grps m n = (case grp m n of None \<Rightarrow> [] | Some w \<Rightarrow> w)"

text \<open>
  \<open>s.replace(/r/g, f)\<close>: scan from the left; at a match the replacement is emitted and the
  scan goes on behind it (one character further after an empty match), elsewhere the
  character is copied.
\<close>

function replace_g :: "re \<Rightarrow> (mstate \<Rightarrow> string) \<Rightarrow> char option \<Rightarrow> string \<Rightarrow> string" where
  "replace_g r f p s =
     (case exec_at r p s of
        Some m \<Rightarrow>
          if length (rest m) < length s then f m @ replace_g r f (prev m) (rest m)
          else (case s of [] \<Rightarrow> f m | c # cs \<Rightarrow> f m @ c # replace_g r f (Some c) cs)
      | None \<Rightarrow> (case s of [] \<Rightarrow> [] | c # cs \<Rightarrow> c # replace_g r f (Some c) cs))"
  by pat_completeness auto
termination
  by (relation "measure (\<lambda>(r, f, p, s). length s)") auto

definition replaceAll :: "re \<Rightarrow> (mstate \<Rightarrow> string) \<Rightarrow> string \<Rightarrow> string" where
  "replaceAll r f s = replace_g r f None s"

text \<open>\<open>s.match(/r/)\<close> without the g flag: the first position, from the left, with a match.\<close>

fun search_from :: "re \<Rightarrow> char option \<Rightarrow> string \<Rightarrow> mstate option" where
  "search_from r p [] = exec_at r p []"
| "search_from r p (c # cs) =
     (case exec_at r p (c # cs) of Some m \<Rightarrow> Some m | None \<Rightarrow> search_from r (Some c) cs)"

definition match_re :: "re \<Rightarrow> string \<Rightarrow> mstate option" where
  "match_re r s = search_from r None s"

section \<open>Slug generation\<close>

text \<open>
  \<^verbatim>\<open>slugify: text.toLowerCase().replace(/[^\w\s-]/g, '').replace(/\s+/g, '-')
            .replace(/-+/g, '-').trim()\<close>
\<close>

definition slugify :: "string \<Rightarrow> string" where
  "slugify text =
     trim
       (replaceAll (Plus (Chr CHR ''-'')) (\<lambda>_. ''-'')
         (replaceAll (Plus (Cls isSpace)) (\<lambda>_. ''-'')
           (replaceAll (Cls (\<lambda>c. \<not> (isWord c \<or> isSpace c \<or> c = CHR ''-''))) (\<lambda>_. '''')
             (toLowerCase text))))"


section \<open>The markup transformer\<close>

record config =
  contentBasePath :: string
  imageBasePath :: string
  defaultContentId :: string
  generateTOC :: bool
  tocContainerId :: string

definition default_config :: config where
  "default_config =
     \<lparr> contentBasePath = ''../content/'', imageBasePath = ''../assets/'',
       defaultContentId = ''markdown-content'', generateTOC = True,
       tocContainerId = ''table-of-contents'' \<rparr>"

abbreviation NL :: char where
  "NL \<equiv> CHR 0x0A"

abbreviation DQ :: char where
  "DQ \<equiv> CHR 0x22"

definition resolveImagePath :: "config \<Rightarrow> string \<Rightarrow> string" where
  "resolveImagePath cfg src =
     (if startsWith src ''http'' \<or> startsWith src ''data:'' \<or> startsWith src ''/'' then src
      else imageBasePath cfg @ src)"

subsection \<open>Escaping and callouts\<close>

definition escapeHtml :: "string \<Rightarrow> string" where
  \<comment> \<open>\<^verbatim>\<open>html.replace(/&/g, '&amp;').replace(/</g, '&lt;').replace(/>/g, '&gt;')\<close>\<close>
  "escapeHtml s =
     replaceAll (Chr CHR ''>'') (\<lambda>_. ''&gt;'')
       (replaceAll (Chr CHR ''<'') (\<lambda>_. ''&lt;'')
         (replaceAll (Chr CHR ''&'') (\<lambda>_. ''&amp;'') s))"

definition calloutTypes :: "string list" where
  "calloutTypes = [''note'', ''warning'', ''tip'', ''info'', ''important'']"

definition calloutRegex :: "string \<Rightarrow> re" where
  \<comment> \<open>\<^verbatim>\<open>new RegExp(`:::${type}\\n([\\s\\S]*?):::`, 'gi')\<close>\<close>
  "calloutRegex type =
     Seqs [LitI '':::'', LitI type, ChrI NL, Grp 1 (LazyStar (Cls isAny)), LitI '':::'']"

definition parseCallouts :: "string \<Rightarrow> string" where
  "parseCallouts markdown =
     foldl (\<lambda>result type.
              replaceAll (calloutRegex type)
                (\<lambda>m. ''<div class='' @ [DQ] @ ''info-box '' @ type @ [DQ] @ ''>''
                       @ trim (grps m 1) @ ''</div>'')
                result)
       markdown calloutTypes"

subsection \<open>Headings\<close>

definition headerRegex :: "nat \<Rightarrow> re" where
  \<comment> \<open>\<^verbatim>\<open>/^#{k}\s+(.+)$/gm\<close>, written out in the source for k = 6, ..., 1\<close>
  "headerRegex k =
     Seqs [LineStart, Lit (replicate k CHR ''#''), Plus (Cls isSpace),
           Grp 1 (Plus (Cls isDot)), LineEnd]"

definition h2IdRegex :: re where
  \<comment> \<open>\<^verbatim>\<open>/<h2 id="(.+?)">(.+?)<\/h2>/g\<close>\<close>
  "h2IdRegex =
     Seqs [Lit (''<h2 id='' @ [DQ]), Grp 1 (LazyPlus (Cls isDot)), Lit ([DQ] @ ''>''),
           Grp 2 (LazyPlus (Cls isDot)), Lit ''</h2>'']"

definition parseHeaders :: "string \<Rightarrow> string" where
  \<comment> \<open>the passes under the comments "Headers" and "Generate proper IDs for headers"\<close>
  "parseHeaders html0 =
     (let html1 = replaceAll (headerRegex 6) (\<lambda>m. ''<h6>'' @ grps m 1 @ ''</h6>'') html0;
          html2 = replaceAll (headerRegex 5) (\<lambda>m. ''<h5>'' @ grps m 1 @ ''</h5>'') html1;
          html3 = replaceAll (headerRegex 4) (\<lambda>m. ''<h4>'' @ grps m 1 @ ''</h4>'') html2;
          html4 = replaceAll (headerRegex 3) (\<lambda>m. ''<h3>'' @ grps m 1 @ ''</h3>'') html3;
          html5 = replaceAll (headerRegex 2)
                    (\<lambda>m. ''<h2 id='' @ [DQ] @ grps m 1 @ [DQ] @ ''>'' @ grps m 1 @ ''</h2>'') html4;
          html6 = replaceAll (headerRegex 1) (\<lambda>m. ''<h1>'' @ grps m 1 @ ''</h1>'') html5
      in replaceAll h2IdRegex
           (\<lambda>m. ''<h2 id='' @ [DQ] @ slugify (grps m 2) @ [DQ] @ ''>'' @ grps m 2 @ ''</h2>'')
           html6)"

subsection \<open>Emphasis\<close>

definition emphRegex :: "string \<Rightarrow> re" where
  \<comment> \<open>\<^verbatim>\<open>/\*\*\*(.+?)\*\*\*/g\<close> and its five siblings: a marker, \<open>(.+?)\<close>, the marker\<close>
  "emphRegex mk = Seqs [Lit mk, Grp 1 (LazyPlus (Cls isDot)), Lit mk]"

definition parseEmphasis :: "string \<Rightarrow> string" where
  "parseEmphasis html0 =
     (let html1 = replaceAll (emphRegex ''***'')
                    (\<lambda>m. ''<strong><em>'' @ grps m 1 @ ''</em></strong>'') html0;
          html2 = replaceAll (emphRegex ''**'') (\<lambda>m. ''<strong>'' @ grps m 1 @ ''</strong>'') html1;
          html3 = replaceAll (emphRegex ''*'') (\<lambda>m. ''<em>'' @ grps m 1 @ ''</em>'') html2;
          html4 = replaceAll (emphRegex ''___'')
                    (\<lambda>m. ''<strong><em>'' @ grps m 1 @ ''</em></strong>'') html3;
          html5 = replaceAll (emphRegex ''__'') (\<lambda>m. ''<strong>'' @ grps m 1 @ ''</strong>'') html4
      in replaceAll (emphRegex ''_'') (\<lambda>m. ''<em>'' @ grps m 1 @ ''</em>'') html5)"

subsection \<open>Images\<close>

definition captionedImageRegex :: re where
  \<comment> \<open>\<^verbatim>\<open>/!\[([^\]]*)\]\(([^)"]+)\s+"([^"]+)"\)/g\<close>\<close>
  "captionedImageRegex =
     Seqs [Lit ''!['', Grp 1 (Star (Cls (\<lambda>c. c \<noteq> CHR '']''))), Lit '']('',
           Grp 2 (Plus (Cls (\<lambda>c. c \<noteq> CHR '')'' \<and> c \<noteq> DQ))), Plus (Cls isSpace), Chr DQ,
           Grp 3 (Plus (Cls (\<lambda>c. c \<noteq> DQ))), Chr DQ, Chr CHR '')'']"

definition classedImageRegex :: re where
  \<comment> \<open>\<^verbatim>\<open>/!\[([^\]]*)\]\(([^)]+)\)\{\.([^}]+)\}/g\<close>\<close>
  "classedImageRegex =
     Seqs [Lit ''!['', Grp 1 (Star (Cls (\<lambda>c. c \<noteq> CHR '']''))), Lit '']('',
           Grp 2 (Plus (Cls (\<lambda>c. c \<noteq> CHR '')''))), Lit ''){.'',
           Grp 3 (Plus (Cls (\<lambda>c. c \<noteq> CHR ''}''))), Chr CHR ''}'']"

definition plainImageRegex :: re where
  \<comment> \<open>\<^verbatim>\<open>/!\[([^\]]*)\]\(([^)]+)\)/g\<close>\<close>
  "plainImageRegex =
     Seqs [Lit ''!['', Grp 1 (Star (Cls (\<lambda>c. c \<noteq> CHR '']''))), Lit '']('',
           Grp 2 (Plus (Cls (\<lambda>c. c \<noteq> CHR '')''))), Chr CHR '')'']"

definition captionedImage :: "config \<Rightarrow> string \<Rightarrow> string \<Rightarrow> string \<Rightarrow> string" where
  \<comment> \<open>the callback \<open>(match, alt, src, caption) => ...\<close>: the template literal of the
      source, with its line breaks and indentation\<close>
  "captionedImage cfg alt src caption =
     (let fullSrc = resolveImagePath cfg src
      in ''<figure class='' @ [DQ] @ ''figure'' @ [DQ] @ ''>'' @ [NL]
         @ replicate 16 CHR '' '' @ ''<img src='' @ [DQ] @ fullSrc @ [DQ]
         @ '' alt='' @ [DQ] @ alt @ [DQ] @ '' loading='' @ [DQ] @ ''lazy'' @ [DQ] @ ''>'' @ [NL]
         @ replicate 16 CHR '' '' @ ''<figcaption class='' @ [DQ] @ ''figure-caption'' @ [DQ]
         @ ''>'' @ caption @ ''</figcaption>'' @ [NL]
         @ replicate 12 CHR '' '' @ ''</figure>'')"

definition classedImage :: "config \<Rightarrow> string \<Rightarrow> string \<Rightarrow> string \<Rightarrow> string" where
  \<comment> \<open>the callback \<open>(match, alt, src, className) => ...\<close>\<close>
  "classedImage cfg alt src className =
     (let fullSrc = resolveImagePath cfg src
      in ''<img src='' @ [DQ] @ fullSrc @ [DQ] @ '' alt='' @ [DQ] @ alt @ [DQ]
         @ '' class='' @ [DQ] @ className @ [DQ] @ '' loading='' @ [DQ] @ ''lazy'' @ [DQ] @ ''>'')"

definition plainImage :: "config \<Rightarrow> string \<Rightarrow> string \<Rightarrow> string" where
  \<comment> \<open>the callback \<open>(match, alt, src) => ...\<close>\<close>
  "plainImage cfg alt src =
     (let fullSrc = resolveImagePath cfg src
      in ''<img src='' @ [DQ] @ fullSrc @ [DQ] @ '' alt='' @ [DQ] @ alt @ [DQ]
         @ '' loading='' @ [DQ] @ ''lazy'' @ [DQ] @ ''>'')"

definition parseCaptionedImages :: "config \<Rightarrow> string \<Rightarrow> string" where
  "parseCaptionedImages cfg html =
     replaceAll captionedImageRegex
       (\<lambda>m. captionedImage cfg (grps m 1) (grps m 2) (grps m 3)) html"

definition parseClassedImages :: "config \<Rightarrow> string \<Rightarrow> string" where
  "parseClassedImages cfg html =
     replaceAll classedImageRegex
       (\<lambda>m. classedImage cfg (grps m 1) (grps m 2) (grps m 3)) html"

definition parsePlainImages :: "config \<Rightarrow> string \<Rightarrow> string" where
  "parsePlainImages cfg html =
     replaceAll plainImageRegex (\<lambda>m. plainImage cfg (grps m 1) (grps m 2)) html"

definition parseImages :: "config \<Rightarrow> string \<Rightarrow> string" where
  \<comment> \<open>the three image passes in the order of the source\<close>
  "parseImages cfg html =
     parsePlainImages cfg (parseClassedImages cfg (parseCaptionedImages cfg html))"

subsection \<open>Links, code, quotes, rules\<close>

definition linkRegex :: re where
  \<comment> \<open>\<^verbatim>\<open>/\[([^\]]+)\]\(([^)]+)\)/g\<close>\<close>
  "linkRegex =
     Seqs [Chr CHR ''['', Grp 1 (Plus (Cls (\<lambda>c. c \<noteq> CHR '']''))), Lit '']('',
           Grp 2 (Plus (Cls (\<lambda>c. c \<noteq> CHR '')''))), Chr CHR '')'']"

definition parseLinks :: "string \<Rightarrow> string" where
  "parseLinks html =
     replaceAll linkRegex
       (\<lambda>m. ''<a href='' @ [DQ] @ grps m 2 @ [DQ] @ ''>'' @ grps m 1 @ ''</a>'') html"

definition inlineCodeRegex :: re where
  \<comment> \<open>\<^verbatim>\<open>/`([^`]+)`/g\<close>\<close>
  "inlineCodeRegex =
     Seqs [Chr CHR 0x60, Grp 1 (Plus (Cls (\<lambda>c. c \<noteq> CHR 0x60))), Chr CHR 0x60]"

definition codeBlockRegex :: re where
  \<comment> \<open>\<^verbatim>\<open>/```(\w+)?\n([\s\S]*?)```/g\<close>\<close>
  "codeBlockRegex =
     Seqs [Lit (replicate 3 CHR 0x60), Opt (Grp 1 (Plus (Cls isWord))), Chr NL,
           Grp 2 (LazyStar (Cls isAny)), Lit (replicate 3 CHR 0x60)]"

definition parseCode :: "string \<Rightarrow> string" where
  "parseCode html0 =
     (let html1 = replaceAll inlineCodeRegex (\<lambda>m. ''<code>'' @ grps m 1 @ ''</code>'') html0
      in replaceAll codeBlockRegex
           (\<lambda>m. let langClass =
                     (case grp m 1 of None \<Rightarrow> []
                      | Some lang \<Rightarrow> if lang = [] then []
                          else '' class='' @ [DQ] @ ''language-'' @ lang @ [DQ])
                 in ''<pre'' @ langClass @ ''><code>'' @ trim (grps m 2) @ ''</code></pre>'')
           html1)"

definition blockquoteRegex :: re where
  \<comment> \<open>\<^verbatim>\<open>/^&gt;\s+(.+)$/gm\<close>\<close>
  "blockquoteRegex =
     Seqs [LineStart, Lit ''&gt;'', Plus (Cls isSpace), Grp 1 (Plus (Cls isDot)), LineEnd]"

definition parseBlockquotes :: "string \<Rightarrow> string" where
  "parseBlockquotes html0 =
     (let html1 = replaceAll blockquoteRegex
                    (\<lambda>m. ''<blockquote>'' @ grps m 1 @ ''</blockquote>'') html0
      in replaceAll (Lit (''</blockquote>'' @ [NL] @ ''<blockquote>'')) (\<lambda>_. [NL]) html1)"

definition parseRules :: "string \<Rightarrow> string" where
  \<comment> \<open>\<^verbatim>\<open>/^---+$/gm\<close>, then \<^verbatim>\<open>/^\*\*\*+$/gm\<close>\<close>
  "parseRules html0 =
     (let html1 = replaceAll (Seqs [LineStart, Lit ''--'', Plus (Chr CHR ''-''), LineEnd])
                    (\<lambda>_. ''<hr>'') html0
      in replaceAll (Seqs [LineStart, Lit ''**'', Plus (Chr CHR ''*''), LineEnd])
           (\<lambda>_. ''<hr>'') html1)"


subsection \<open>Lists\<close>

definition ulRegex :: re where
  \<comment> \<open>\<^verbatim>\<open>/^[\-\*]\s+(.+)$/\<close>\<close>
  "ulRegex =
     Seqs [InputStart, Cls (\<lambda>c. c = CHR ''-'' \<or> c = CHR ''*''), Plus (Cls isSpace),
           Grp 1 (Plus (Cls isDot)), InputEnd]"

definition olRegex :: re where
  \<comment> \<open>\<^verbatim>\<open>/^\d+\.\s+(.+)$/\<close>\<close>
  "olRegex =
     Seqs [InputStart, Plus (Cls isDigit), Chr CHR ''.'', Plus (Cls isSpace),
           Grp 1 (Plus (Cls isDot)), InputEnd]"

record lstate =
  inList :: bool
  listType :: string
  result :: "string list"

definition closeTag :: "string \<Rightarrow> string" where
  \<comment> \<open>\<^verbatim>\<open>`</${listType}>`\<close>\<close>
  "closeTag t = ''</'' @ t @ ''>''"

definition listItem :: "mstate \<Rightarrow> string" where
  \<comment> \<open>\<^verbatim>\<open>`<li>${match[1]}</li>`\<close>\<close>
  "listItem m = ''<li>'' @ grps m 1 @ ''</li>''"

definition listStep :: "lstate \<Rightarrow> string \<Rightarrow> lstate" where
  \<comment> \<open>the body of the loop of \<open>parseLists\<close> for one line\<close>
  "listStep st line =
     (case match_re ulRegex line of
        Some ulMatch \<Rightarrow>
          (let st1 = (if \<not> inList st \<or> listType st \<noteq> ''ul''
                      then \<lparr> inList = True, listType = ''ul'',
                             result = (if inList st then result st @ [closeTag (listType st)]
                                       else result st) @ [''<ul>''] \<rparr>
                      else st)
           in st1\<lparr> result := result st1 @ [listItem ulMatch] \<rparr>)
      | None \<Rightarrow>
          (case match_re olRegex line of
             Some olMatch \<Rightarrow>
               (let st1 = (if \<not> inList st \<or> listType st \<noteq> ''ol''
                           then \<lparr> inList = True, listType = ''ol'',
                                  result = (if inList st then result st @ [closeTag (listType st)]
                                            else result st) @ [''<ol>''] \<rparr>
                           else st)
                in st1\<lparr> result := result st1 @ [listItem olMatch] \<rparr>)
           | None \<Rightarrow>
               (let st1 = (if inList st
                           then \<lparr> inList = False, listType = [],
                                  result = result st @ [closeTag (listType st)] \<rparr>
                           else st)
                in st1\<lparr> result := result st1 @ [line] \<rparr>)))"

definition listLoop :: "string list \<Rightarrow> lstate" where
  "listLoop lines = foldl listStep \<lparr> inList = False, listType = [], result = [] \<rparr> lines"

definition listFinish :: "lstate \<Rightarrow> string list" where
  \<comment> \<open>\<^verbatim>\<open>if (inList) result.push(`</${listType}>`)\<close>\<close>
  "listFinish st = (if inList st then result st @ [closeTag (listType st)] else result st)"

definition parseListLines :: "string list \<Rightarrow> string list" where
  "parseListLines lines = listFinish (listLoop lines)"

definition parseLists :: "string \<Rightarrow> string" where
  "parseLists html = join [NL] (parseListLines (split_on NL html))"

subsection \<open>Paragraphs\<close>

text \<open>
  \<open>s.split(/r/)\<close> for a pattern without groups: the pieces between the matches, a match
  being looked for at every position before the end.
\<close>

function split_scan :: "re \<Rightarrow> char option \<Rightarrow> string \<Rightarrow> string \<Rightarrow> string list" where
  "split_scan r p acc [] = [acc]"
| "split_scan r p acc (c # cs) =
     (case exec_at r p (c # cs) of
        Some m \<Rightarrow>
          if length (rest m) < length (c # cs) then acc # split_scan r (prev m) [] (rest m)
          else if acc = [] then split_scan r (Some c) [c] cs
          else acc # split_scan r (Some c) [c] cs
      | None \<Rightarrow> split_scan r (Some c) (acc @ [c]) cs)"
  by pat_completeness auto
termination
  by (relation "measure (\<lambda>(r, p, acc, s). length s)") auto

definition split_re :: "re \<Rightarrow> string \<Rightarrow> string list" where
  "split_re r s =
     (if s = [] then (case exec_at r None [] of Some _ \<Rightarrow> [] | None \<Rightarrow> [[]])
      else split_scan r None [] s)"

definition blankLinesRegex :: re where
  \<comment> \<open>\<^verbatim>\<open>/\n\n+/\<close>\<close>
  "blankLinesRegex = Seq (Chr NL) (Plus (Chr NL))"

definition blockTagRegex :: re where
  \<comment> \<open>\<^verbatim>\<open>/^<(h[1-6]|ul|ol|li|blockquote|pre|div|figure|hr|table)/i\<close>\<close>
  "blockTagRegex =
     Seqs [InputStart, ChrI CHR ''<'',
           Grp 1 (Alts [Seq (ChrI CHR ''h'') (Cls (\<lambda>c. 49 \<le> code c \<and> code c \<le> 54)),
                        LitI ''ul'', LitI ''ol'', LitI ''li'', LitI ''blockquote'', LitI ''pre'',
                        LitI ''div'', LitI ''figure'', LitI ''hr'', LitI ''table''])]"

definition paragraphBlock :: "string \<Rightarrow> string" where
  \<comment> \<open>the function mapped over the blocks\<close>
  "paragraphBlock block0 =
     (let block = trim block0
      in if match_re blockTagRegex block \<noteq> None then block
         else if block = [] then []
         else ''<p>'' @ replaceAll (Chr NL) (\<lambda>_. ''<br>'') block @ ''</p>'')"

definition parseParagraphs :: "string \<Rightarrow> string" where
  "parseParagraphs html =
     join [NL, NL] (map paragraphBlock (split_re blankLinesRegex html))"

subsection \<open>The whole transformation\<close>

definition parseMarkdown :: "config \<Rightarrow> string \<Rightarrow> string" where
  "parseMarkdown cfg markdown =
     parseParagraphs (parseLists (parseRules (parseBlockquotes (parseCode (parseLinks
       (parseImages cfg (parseEmphasis (parseHeaders (parseCallouts
         (escapeHtml markdown))))))))))"


section \<open>Navigation\<close>

text \<open>
  A heading element as the navigation generator reads and writes it: \<open>tagName\<close>, \<open>id\<close>
  (empty when the element has none), \<open>style.scrollMarginTop\<close> (empty when it is not
  set) and \<open>textContent\<close>.
\<close>

record heading =
  tagName :: string
  hid :: string
  scrollMarginTop :: string
  textContent :: string

text \<open>
  The browser's part, \<open>container.querySelectorAll('h2, h3, h4, h5')\<close> on rendered markup:
  the heading elements of levels 2 to 5, for markup as the transformer emits it (a start
  tag with at most an id attribute, the content on one line, the end tag). The text
  content of an element is its content without the tags in it and with the character
  references decoded; the transformer writes the references \<open>&amp;\<close>, \<open>&lt;\<close> and
  \<open>&gt;\<close> only, and an identifier that it writes contains no reference.
\<close>

definition tagRegex :: re where
  \<comment> \<open>a tag in the content of an element: \<open><\<close>, any characters but \<open>>\<close>, \<open>>\<close>\<close>
  "tagRegex = Seqs [Chr CHR ''<'', Star (Cls (\<lambda>c. c \<noteq> CHR ''>'')), Chr CHR ''>'']"

definition referenceRegex :: re where
  \<comment> \<open>one of the character references \<open>&amp;\<close>, \<open>&lt;\<close>, \<open>&gt;\<close>\<close>
  "referenceRegex =
     Seqs [Chr CHR ''&'', Grp 1 (Alts [Lit ''amp'', Lit ''lt'', Lit ''gt'']), Chr CHR '';'']"

definition textOf :: "string \<Rightarrow> string" where
  \<comment> \<open>\<open>textContent\<close> for the content of an element\<close>
  "textOf inner =
     replaceAll referenceRegex
       (\<lambda>m. if grps m 1 = ''amp'' then ''&'' else if grps m 1 = ''lt'' then ''<'' else ''>'')
       (replaceAll tagRegex (\<lambda>_. []) inner)"

definition headingElementRegex :: re where
  "headingElementRegex =
     Seqs [Lit ''<h'', Grp 1 (Cls (\<lambda>c. 50 \<le> code c \<and> code c \<le> 53)),
           Opt (Seqs [Lit ('' id='' @ [DQ]), Grp 2 (Star (Cls (\<lambda>c. c \<noteq> DQ))), Chr DQ]),
           Chr CHR ''>'', Grp 3 (LazyStar (Cls isAny)), Lit ''</h'',
           Cls (\<lambda>c. 50 \<le> code c \<and> code c \<le> 53), Chr CHR ''>'']"

function matchAll :: "re \<Rightarrow> char option \<Rightarrow> string \<Rightarrow> mstate list" where
  "matchAll r p s =
     (case exec_at r p s of
        Some m \<Rightarrow>
          if length (rest m) < length s then m # matchAll r (prev m) (rest m)
          else (case s of [] \<Rightarrow> [m] | c # cs \<Rightarrow> m # matchAll r (Some c) cs)
      | None \<Rightarrow> (case s of [] \<Rightarrow> [] | c # cs \<Rightarrow> matchAll r (Some c) cs))"
  by pat_completeness auto
termination
  by (relation "measure (\<lambda>(r, p, s). length s)") auto

definition queryHeaders :: "string \<Rightarrow> heading list" where
  "queryHeaders html =
     map (\<lambda>m. \<lparr> tagName = ''H'' @ grps m 1, hid = grps m 2, scrollMarginTop = [],
                textContent = textOf (grps m 3) \<rparr>)
       (matchAll headingElementRegex None html)"

definition headingId :: "heading \<Rightarrow> string" where
  \<comment> \<open>\<^verbatim>\<open>header.id || this.slugify(header.textContent)\<close>\<close>
  "headingId h = (if hid h \<noteq> [] then hid h else slugify (textContent h))"

definition tocEntry :: "heading \<Rightarrow> string" where
  \<comment> \<open>\<^verbatim>\<open>`<li class="toc-${level}"><a href="#${id}" data-target="${id}">${header.textContent}</a></li>`\<close>\<close>
  "tocEntry h =
     (let level = toLowerCase (tagName h); ident = headingId h
      in ''<li class='' @ [DQ] @ ''toc-'' @ level @ [DQ] @ ''><a href='' @ [DQ] @ ''#'' @ ident
         @ [DQ] @ '' data-target='' @ [DQ] @ ident @ [DQ] @ ''>'' @ textContent h @ ''</a></li>'')"

definition tocOpen :: string where
  "tocOpen =
     ''<nav class='' @ [DQ] @ ''toc'' @ [DQ] @ ''>''
     @ ''<div class='' @ [DQ] @ ''toc-progress'' @ [DQ] @ ''><div class='' @ [DQ]
     @ ''toc-progress-bar'' @ [DQ] @ ''></div></div>''
     @ ''<h4>On This Page</h4><ul class='' @ [DQ] @ ''toc-list'' @ [DQ] @ ''>''"

definition scrollMargin :: string where
  "scrollMargin = ''calc(var(--navbar-height, 72px) + 1.5rem)''"

definition generateTableOfContents :: "bool \<Rightarrow> heading list \<Rightarrow> string option \<times> heading list" where
  \<comment> \<open>from whether the navigation target exists and the headings of the container: the
      markup written into the target (\<open>None\<close> when nothing is written) and the headings
      as the call leaves them, with \<open>header.id = id\<close> and \<open>header.style.scrollMarginTop\<close>
      assigned\<close>
  "generateTableOfContents tocContainerExists headers =
     (if \<not> tocContainerExists then (None, headers)
      else if headers = [] then (None, headers)
      else (Some (tocOpen @ concat (map tocEntry headers) @ ''</ul></nav>''),
            map (\<lambda>h. h\<lparr> hid := headingId h, scrollMarginTop := scrollMargin \<rparr>) headers))"

section \<open>Retrieval\<close>

datatype js_error = Error string | TypeError string | ReferenceError string

fun message :: "js_error \<Rightarrow> string" where
  "message (Error m) = m"
| "message (TypeError m) = m"
| "message (ReferenceError m) = m"

datatype fetch_outcome =
    Rejected string  \<comment> \<open>\<open>fetch\<close> throws: a transport error\<close>
  | Responded nat string  \<comment> \<open>a response: its status and its body\<close>

definition ok :: "nat \<Rightarrow> bool" where
  \<comment> \<open>\<open>response.ok\<close>\<close>
  "ok status = (200 \<le> status \<and> status \<le> 299)"

datatype effect =
    Warned string  \<comment> \<open>\<open>console.warn\<close>\<close>
  | Augmented  \<comment> \<open>\<open>initializeInteractiveElements\<close> ran on the container\<close>
  | TocWritten string  \<comment> \<open>the navigation target received this markup\<close>
  | Animated  \<comment> \<open>\<open>triggerAnimations\<close> ran\<close>

text \<open>
  A container element: \<open>innerHTML\<close> is the markup last assigned to it, \<open>headings\<close> are
  the heading elements of levels 2 to 5 that this markup made, with the identifier and
  the style that have been written to them since.
\<close>

record container =
  contentSource :: string
  innerHTML :: string
  headings :: "heading list"
  classList :: "string list"
  lastMarkdown :: "string option"
  lastRendered :: "string option"
  effects :: "effect list"

definition setInnerHTML :: "string \<Rightarrow> container \<Rightarrow> container" where
  \<comment> \<open>\<open>container.innerHTML = html\<close>: the children are replaced by the parsed markup\<close>
  "setInnerHTML html c = c\<lparr> innerHTML := html, headings := queryHeaders html \<rparr>"

record env =
  protocol :: string  \<comment> \<open>\<open>window.location.protocol\<close>\<close>
  globals :: "string \<Rightarrow> string option"  \<comment> \<open>the bindings of the global scope\<close>
  tocContainerExists :: bool
  fetch :: "string \<Rightarrow> fetch_outcome"

definition loadingIndicator :: string where
  "loadingIndicator =
     ''<div class='' @ [DQ] @ ''loading'' @ [DQ] @ ''><div class='' @ [DQ] @ ''loading-spinner''
     @ [DQ] @ ''></div></div>''"

definition addClass :: "string \<Rightarrow> container \<Rightarrow> container" where
  "addClass cl c = (if cl \<in> set (classList c) then c else c\<lparr> classList := classList c @ [cl] \<rparr>)"

definition initializeInteractiveElements :: "container \<Rightarrow> container" where
  "initializeInteractiveElements c = c\<lparr> effects := effects c @ [Augmented] \<rparr>"

definition triggerAnimations :: "container \<Rightarrow> container" where
  "triggerAnimations c = c\<lparr> effects := effects c @ [Animated] \<rparr>"

function decimal :: "nat \<Rightarrow> string" where
  "decimal n = (if n < 10 then [char_of (48 + n)] else decimal (n div 10) @ [char_of (48 + n mod 10)])"
  by pat_completeness auto
termination
  by (relation "measure id") auto

text \<open>
  The scopes of \<open>loadContent\<close>. \<open>fallbackContent\<close>, \<open>fullPath\<close>, \<open>response\<close>, \<open>markdown\<close>
  and \<open>html\<close> are \<open>const\<close> declarations of the \<open>try\<close> block and are bound in that block
  only. The \<open>catch\<close> block binds \<open>error\<close>; around it are the parameters \<open>filePath\<close> and
  \<open>container\<close>, then the global scope. An identifier that none of them binds raises a
  ReferenceError when it is read.
\<close>

definition catchScope :: "env \<Rightarrow> (string \<times> string) list \<Rightarrow> string \<Rightarrow> string option" where
  \<comment> \<open>what an identifier read in the catch block evaluates to: \<open>locals\<close> are the bindings
      of the block and of the function around it (of \<open>error\<close> and \<open>container\<close>, which are
      objects, only the names matter), then the global scope is asked; \<open>None\<close> is the
      ReferenceError\<close>
  "catchScope e locals name =
     (case map_of locals name of Some v \<Rightarrow> Some v | None \<Rightarrow> globals e name)"

definition tryFetch :: "env \<Rightarrow> string \<Rightarrow> js_error + string" where
  \<comment> \<open>\<open>fetch\<close>, the test of \<open>response.ok\<close> and \<open>response.text()\<close>\<close>
  "tryFetch e fullPath =
     (case fetch e fullPath of
        Rejected msg \<Rightarrow> Inl (TypeError msg)
      | Responded status body \<Rightarrow>
          if \<not> ok status then Inl (Error (''Failed to load content: '' @ decimal status))
          else Inr body)"

definition loadContent :: "env \<Rightarrow> config \<Rightarrow> string \<Rightarrow> container \<Rightarrow> (js_error + unit) \<times> container" where
  \<comment> \<open>the outcome of the call (\<open>Inl\<close>: the promise is rejected with this error) and the
      container as the call leaves it\<close>
  "loadContent e cfg filePath container0 =
     (if protocol e = ''file:''
      then (Inr (), initializeInteractiveElements (addClass ''markdown-content'' container0))
      else
        let fallbackContent = innerHTML container0;
            container1 = setInnerHTML loadingIndicator container0;
            fullPath = (if startsWith filePath ''http'' then filePath
                        else contentBasePath cfg @ filePath)
        in case tryFetch e fullPath of
             Inr markdown \<Rightarrow>
               (let html = parseMarkdown cfg markdown;
                    container2 = container1\<lparr> lastMarkdown := Some (take 800 markdown),
                                              lastRendered := Some (take 800 html) \<rparr>;
                    container3 = addClass ''markdown-content'' (setInnerHTML html container2);
                    container4 =
                      (if generateTOC cfg
                       then (case generateTableOfContents (tocContainerExists e)
                                    (headings container3) of
                               (None, headers) \<Rightarrow> container3
                             | (Some toc, headers) \<Rightarrow>
                                 container3\<lparr> headings := headers,
                                              effects := effects container3 @ [TocWritten toc] \<rparr>)
                       else container3)
                in (Inr (), triggerAnimations (initializeInteractiveElements container4)))
           | Inl error \<Rightarrow>
               (let container2 =
                      container1\<lparr> effects := effects container1 @ [Warned (message error)] \<rparr>;
                    locals = [(''error'', message error), (''filePath'', filePath),
                              (''container'', contentSource container0)]
                in case catchScope e locals ''fallbackContent'' of
                     None \<Rightarrow> (Inl (ReferenceError ''fallbackContent is not defined''), container2)
                   | Some v \<Rightarrow>
                       (Inr (), initializeInteractiveElements
                                  (addClass ''markdown-content'' (setInnerHTML v container2)))))"

subsection \<open>The retry timer of \<open>init\<close>\<close>

record timer =
  attempts :: nat
  active :: bool  \<comment> \<open>set by \<open>setInterval\<close>, cleared by \<open>clearInterval\<close>\<close>

definition maxAttempts :: nat where
  "maxAttempts = 3"

definition unrendered :: "container \<Rightarrow> bool" where
  \<comment> \<open>\<^verbatim>\<open>!container.dataset || !container.dataset.lastRendered\<close>\<close>
  "unrendered c = (case lastRendered c of None \<Rightarrow> True | Some w \<Rightarrow> w = [])"

definition initTimer :: "container list \<Rightarrow> timer" where
  \<comment> \<open>the timer exists only when there are containers with a source\<close>
  "initTimer cs = \<lparr> attempts = 0, active = (cs \<noteq> []) \<rparr>"

definition retryTick :: "container list \<Rightarrow> timer \<Rightarrow> timer \<times> string list" where
  \<comment> \<open>the callback of the timer, on the containers as they are at that moment: the timer
      after it and the sources \<open>loadContent\<close> is called for\<close>
  "retryTick cs t =
     (let attempts' = attempts t + 1;
          calls = map contentSource (filter unrendered cs)
      in (\<lparr> attempts = attempts', active = (if attempts' \<ge> maxAttempts then False else active t) \<rparr>,
          calls))"

definition timerPeriod :: "container list \<Rightarrow> timer \<Rightarrow> timer \<times> string list" where
  \<comment> \<open>one period of the interval: the callback runs only while the timer is installed\<close>
  "timerPeriod cs t = (if active t then retryTick cs t else (t, []))"

fun runTimer :: "timer \<Rightarrow> container list list \<Rightarrow> timer \<times> string list list" where
  \<comment> \<open>the periods one after the other, each with the containers as they are then; the
      calls of each period\<close>
  "runTimer t [] = (t, [])"
| "runTimer t (cs # css) =
     (let (t1, calls) = timerPeriod cs t; (t2, rest_calls) = runTimer t1 css
      in (t2, calls # rest_calls))"

section \<open>The zoom overlay\<close>

text \<open>
  The part of the document that \<open>openLightbox\<close> touches: the overlays attached to the body
  (each opening makes a new one, numbered in order), the overflow style of the body, and
  the keydown listeners of the document, each the \<open>escHandler\<close> of one overlay.
\<close>

record document =
  lightboxes :: "nat list"
  overflow :: string
  keydownListeners :: "nat list"
  opened :: nat

datatype event =
    ClickImage  \<comment> \<open>a click on a zoomable image: \<open>openLightbox\<close>\<close>
  | ClickBackdrop nat  \<comment> \<open>a click on the backdrop of an overlay\<close>
  | ClickClose nat  \<comment> \<open>a click on the dismiss control of an overlay\<close>
  | KeyDown string  \<comment> \<open>a keydown event with this key\<close>

definition initialDocument :: document where
  "initialDocument = \<lparr> lightboxes = [], overflow = [], keydownListeners = [], opened = 0 \<rparr>"

definition openLightbox :: "document \<Rightarrow> document" where
  "openLightbox d =
     d\<lparr> lightboxes := lightboxes d @ [opened d], overflow := ''hidden'',
        keydownListeners := keydownListeners d @ [opened d], opened := opened d + 1 \<rparr>"

definition close :: "nat \<Rightarrow> document \<Rightarrow> document" where
  \<comment> \<open>\<^verbatim>\<open>lightbox.remove(); document.body.style.overflow = '';\<close>\<close>
  "close i d = d\<lparr> lightboxes := removeAll i (lightboxes d), overflow := [] \<rparr>"

definition escHandler :: "nat \<Rightarrow> string \<Rightarrow> document \<Rightarrow> document" where
  "escHandler i key d =
     (if key = ''Escape''
      then (let d1 = close i d in d1\<lparr> keydownListeners := removeAll i (keydownListeners d1) \<rparr>)
      else d)"

fun dispatch :: "event \<Rightarrow> document \<Rightarrow> document" where
  "dispatch ClickImage d = openLightbox d"
| "dispatch (ClickBackdrop i) d = (if i \<in> set (lightboxes d) then close i d else d)"
| "dispatch (ClickClose i) d = (if i \<in> set (lightboxes d) then close i d else d)"
| "dispatch (KeyDown key) d = foldl (\<lambda>d' i. escHandler i key d') d (keydownListeners d)"

definition run :: "event list \<Rightarrow> document \<Rightarrow> document" where
  "run es d = foldl (\<lambda>d' ev. dispatch ev d') d es"

section \<open>Definitions for the statements\<close>

subsection \<open>The slug in the words of the specification\<close>

function collapseRuns :: "(char \<Rightarrow> bool) \<Rightarrow> char \<Rightarrow> string \<Rightarrow> string" where
  \<comment> \<open>every maximal run of characters with \<open>P\<close> replaced by the one character \<open>d\<close>\<close>
  "collapseRuns P d [] = []"
| "collapseRuns P d (c # cs) =
     (if P c then d # collapseRuns P d (dropWhile P cs) else c # collapseRuns P d cs)"
  by pat_completeness auto
termination
  by (relation "measure (\<lambda>(P, d, s). length s)") (auto simp: length_dropWhile_le less_Suc_eq_le)

definition stripHyphens :: "string \<Rightarrow> string" where
  \<comment> \<open>without its leading and trailing hyphens\<close>
  "stripHyphens s =
     rev (dropWhile (\<lambda>c. c = CHR ''-'') (rev (dropWhile (\<lambda>c. c = CHR ''-'') s)))"

definition specKeeps :: "char \<Rightarrow> bool" where
  \<comment> \<open>the specification: letters, digits, whitespace and the hyphen are kept\<close>
  "specKeeps c = (isUpper c \<or> isLower c \<or> isDigit c \<or> isSpace c \<or> c = CHR ''-'')"

definition slugify_spec :: "string \<Rightarrow> string" where
  \<comment> \<open>the specification's words, step by step\<close>
  "slugify_spec text =
     stripHyphens
       (collapseRuns (\<lambda>c. c = CHR ''-'') CHR ''-''
         (collapseRuns isSpace CHR ''-'' (filter specKeeps (map lowerChar text))))"

definition slugKeeps :: "char \<Rightarrow> bool" where
  \<comment> \<open>what the code keeps: the characters of \<open>\w\<close> (the underscore among them), whitespace
      and the hyphen\<close>
  "slugKeeps c = (isWord c \<or> isSpace c \<or> c = CHR ''-'')"

subsection \<open>One-character patterns\<close>

definition charRe :: "(char \<Rightarrow> bool) \<Rightarrow> re \<Rightarrow> bool" where
  \<comment> \<open>\<open>a\<close> matches exactly one character, those with \<open>P\<close>\<close>
  "charRe P a = (\<forall>st. rx a st =
     (case rest st of [] \<Rightarrow> []
      | x # xs \<Rightarrow> if P x then [MState (Some x) xs (caps st)] else []))"

definition runPrev :: "(char \<Rightarrow> bool) \<Rightarrow> char option \<Rightarrow> string \<Rightarrow> char option" where
  \<comment> \<open>the character before the position behind the leading run of \<open>P\<close>\<close>
  "runPrev P p s = (if takeWhile P s = [] then p else Some (last (takeWhile P s)))"

subsection \<open>Inputs of the examples\<close>

definition imageInput :: string where
  \<comment> \<open>\<^verbatim>\<open>![a](p.png "c"){.x}\<close>\<close>
  "imageInput = ''![a](p.png '' @ [DQ] @ ''c'' @ [DQ] @ ''){.x}''"

definition imageFigure :: string where
  \<comment> \<open>the figure of the captioned form for \<open>imageInput\<close>\<close>
  "imageFigure =
     ''<figure class='' @ [DQ] @ ''figure'' @ [DQ] @ ''>'' @ [NL]
     @ replicate 16 CHR '' '' @ ''<img src='' @ [DQ] @ ''../assets/p.png'' @ [DQ]
     @ '' alt='' @ [DQ] @ ''a'' @ [DQ] @ '' loading='' @ [DQ] @ ''lazy'' @ [DQ] @ ''>'' @ [NL]
     @ replicate 16 CHR '' '' @ ''<figcaption class='' @ [DQ] @ ''figure-caption'' @ [DQ] @ ''>''
     @ ''c</figcaption>'' @ [NL]
     @ replicate 12 CHR '' '' @ ''</figure>''"

definition pageEnv :: "fetch_outcome \<Rightarrow> env" where
  \<comment> \<open>a page served over https, no global named \<open>fallbackContent\<close>, every retrieval with
      the given outcome\<close>
  "pageEnv outcome =
     \<lparr> protocol = ''https:'', globals = (\<lambda>_. None), tocContainerExists = True,
       fetch = (\<lambda>_. outcome) \<rparr>"

definition oldContainer :: container where
  \<comment> \<open>a container that shows its fallback content and was never loaded\<close>
  "oldContainer =
     \<lparr> contentSource = ''a.md'', innerHTML = ''<p>old</p>'', headings = [], classList = [],
       lastMarkdown = None, lastRendered = None, effects = [] \<rparr>"

definition costsLine :: string where
  "costsLine = ''## Costs for Energy at Home''"

definition costsHeadingHtml :: string where
  \<comment> \<open>\<^verbatim>\<open><h2 id="costs-for-energy-at-home">Costs for Energy at Home</h2>\<close>\<close>
  "costsHeadingHtml =
     ''<h2 id='' @ [DQ] @ ''costs-for-energy-at-home'' @ [DQ] @ ''>Costs for Energy at Home</h2>''"

definition costsHeading :: heading where
  \<comment> \<open>that heading element, as the navigation generator leaves it\<close>
  "costsHeading =
     \<lparr> tagName = ''H2'', hid = ''costs-for-energy-at-home'', scrollMarginTop = scrollMargin,
       textContent = ''Costs for Energy at Home'' \<rparr>"

definition costsTocHtml :: string where
  \<comment> \<open>the navigation markup with the one entry for that heading\<close>
  "costsTocHtml =
     tocOpen @ ''<li class='' @ [DQ] @ ''toc-h2'' @ [DQ] @ ''><a href='' @ [DQ]
     @ ''#costs-for-energy-at-home'' @ [DQ] @ '' data-target='' @ [DQ]
     @ ''costs-for-energy-at-home'' @ [DQ] @ ''>Costs for Energy at Home</a></li></ul></nav>''"

subsection \<open>Blocks of the paragraph pass\<close>

definition blockTagNames :: "string list" where
  \<comment> \<open>the block-level tags that the paragraph pass is to recognise\<close>
  "blockTagNames =
     [''h1'', ''h2'', ''h3'', ''h4'', ''h5'', ''h6'', ''ul'', ''ol'', ''li'', ''blockquote'',
      ''pre'', ''div'', ''figure'', ''hr'', ''table'']"

definition startsWithBlockTag :: "string \<Rightarrow> bool" where
  \<comment> \<open>the text starts with \<open><\<close> and the name of a block-level tag, as the transformer
      writes them\<close>
  "startsWithBlockTag s = (\<exists>t \<in> set blockTagNames. startsWith s (CHR ''<'' # t))"

definition noBlankLine :: "string \<Rightarrow> bool" where
  \<comment> \<open>no two line feeds in a row: the text is one block\<close>
  "noBlankLine s = (\<not> includes_str s [NL, NL])"

subsection \<open>Patterns that cannot match\<close>

fun requires :: "(char \<Rightarrow> bool) \<Rightarrow> re \<Rightarrow> bool" where
  \<comment> \<open>a sufficient condition for: every match of the pattern consumes a character with \<open>P\<close>\<close>
  "requires P (Chr c) = P c"
| "requires P (ChrI c) = (\<forall>x. canonicalize x = canonicalize c \<longrightarrow> P x)"
| "requires P (Cls Q) = (\<forall>x. Q x \<longrightarrow> P x)"
| "requires P (Seq a b) = (requires P a \<or> requires P b)"
| "requires P (Alt a b) = (requires P a \<and> requires P b)"
| "requires P (Grp n a) = requires P a"
| "requires P _ = False"

definition prevAt :: "char option \<Rightarrow> string \<Rightarrow> nat \<Rightarrow> char option" where
  \<comment> \<open>the character before position \<open>k\<close> of \<open>s\<close>, \<open>p\<close> being the one before \<open>s\<close>\<close>
  "prevAt p s k = (if k = 0 then p else Some (s ! (k - 1)))"

fun firstChr :: "char \<Rightarrow> re \<Rightarrow> bool" where
  \<comment> \<open>a sufficient condition for: every match of the pattern starts with the character\<close>
  "firstChr c (Chr d) = (c = d)"
| "firstChr c (Seq a b) = firstChr c a"
| "firstChr c (Grp n a) = firstChr c a"
| "firstChr c _ = False"

subsection \<open>Heading text\<close>

definition escapeChar :: "char \<Rightarrow> string" where
  \<comment> \<open>what the escaping step writes for one character\<close>
  "escapeChar c =
     (if c = CHR ''&'' then ''&amp;'' else if c = CHR ''<'' then ''&lt;''
      else if c = CHR ''>'' then ''&gt;'' else [c])"

definition markupChars :: "char list" where
  \<comment> \<open>the characters that start emphasis, image, link and code syntax\<close>
  "markupChars = [CHR ''*'', CHR ''_'', CHR ''!'', CHR ''['', CHR 0x60]"

definition headingChar :: "char \<Rightarrow> bool" where
  \<comment> \<open>a character of heading text without markup: no line terminator and none of
      \<open>markupChars\<close>\<close>
  "headingChar c = (c \<notin> set markupChars \<and> \<not> isLineTerminator c)"

definition inert :: "string \<Rightarrow> bool" where
  \<comment> \<open>a text on one line without the characters that start emphasis, image, link and
      code syntax\<close>
  "inert s =
     (\<forall>c \<in> set s. c \<notin> set [CHR ''*'', CHR ''_'', CHR ''!'', CHR ''['', CHR 0x60]
                   \<and> \<not> isLineTerminator c)"

definition tagChar :: "char \<Rightarrow> bool" where
  \<comment> \<open>a character that starts no syntax of the passes behind the heading pass\<close>
  "tagChar c =
     (c \<notin> set [CHR ''<'', CHR ''*'', CHR ''_'', CHR ''!'', CHR ''['', CHR 0x60]
      \<and> \<not> isLineTerminator c)"

section \<open>Lemmas\<close>

declare replace_g.simps [simp del]
declare matchAll.simps [simp del]
declare decimal.simps [simp del]
declare rx.simps(7) [simp del]
declare rx.simps(8) [simp del]

subsection \<open>The retry timer\<close>

lemma runTimer_Cons:
  "runTimer t (cs # css) =
     (fst (runTimer (fst (timerPeriod cs t)) css),
      snd (timerPeriod cs t) # snd (runTimer (fst (timerPeriod cs t)) css))"
  by (simp add: case_prod_unfold Let_def)

declare runTimer.simps(2) [simp del]

lemma timerPeriod_inactive: "\<not> active t \<Longrightarrow> timerPeriod cs t = (t, [])"
  by (simp add: timerPeriod_def)

lemma runTimer_inactive:
  "\<not> active t \<Longrightarrow> runTimer t css = (t, replicate (length css) [])"
  by (induction css) (simp_all add: timerPeriod_inactive runTimer_Cons)

lemma runTimer_calls:
  "k < length css \<Longrightarrow> (active t \<longrightarrow> attempts t < maxAttempts) \<Longrightarrow>
   snd (runTimer t css) ! k =
     (if active t \<and> attempts t + k < maxAttempts
      then map contentSource (filter unrendered (css ! k)) else [])"
proof (induction css arbitrary: t k)
  case Nil
  then show ?case by simp
next
  case (Cons cs css)
  show ?case
  proof (cases "active t")
    case False
    then show ?thesis using Cons.prems by (cases k) (simp_all add: runTimer_inactive)
  next
    case True
    obtain t1 calls where tp: "timerPeriod cs t = (t1, calls)"
      by (cases "timerPeriod cs t")
    have t1: "t1 = \<lparr> attempts = attempts t + 1,
                     active = (if attempts t + 1 \<ge> maxAttempts then False else True) \<rparr>"
      and calls: "calls = map contentSource (filter unrendered cs)"
      using tp True by (auto simp: timerPeriod_def retryTick_def Let_def)
    have inv1: "active t1 \<longrightarrow> attempts t1 < maxAttempts"
      using t1 by simp
    show ?thesis
    proof (cases k)
      case 0
      then show ?thesis using True Cons.prems tp calls
        by (simp add: runTimer_Cons)
    next
      case (Suc j)
      then have "j < length css" using Cons.prems by simp
      from Cons.IH[OF this inv1]
      show ?thesis using Suc True tp t1 Cons.prems
        by (auto simp: runTimer_Cons maxAttempts_def)
    qed
  qed
qed

lemma runTimer_attempts:
  "(active t \<longrightarrow> attempts t < maxAttempts) \<Longrightarrow> attempts t \<le> maxAttempts \<Longrightarrow>
   attempts (fst (runTimer t css)) \<le> maxAttempts \<and>
   (active (fst (runTimer t css)) \<longrightarrow> active t \<and> attempts t + length css < maxAttempts)"
proof (induction css arbitrary: t)
  case Nil
  then show ?case by simp
next
  case (Cons cs css)
  show ?case
  proof (cases "active t")
    case False
    then show ?thesis using Cons.prems by (simp add: runTimer_inactive)
  next
    case True
    obtain t1 calls where tp: "timerPeriod cs t = (t1, calls)"
      by (cases "timerPeriod cs t")
    have t1: "t1 = \<lparr> attempts = attempts t + 1,
                     active = (if attempts t + 1 \<ge> maxAttempts then False else True) \<rparr>"
      using tp True by (auto simp: timerPeriod_def retryTick_def Let_def)
    have inv1: "active t1 \<longrightarrow> attempts t1 < maxAttempts"
      and inv2: "attempts t1 \<le> maxAttempts"
      using t1 Cons.prems True by auto
    from Cons.IH[OF inv1 inv2]
    show ?thesis using tp t1 True by (auto simp: runTimer_Cons)
  qed
qed

subsection \<open>The list pass\<close>

lemma listLoop_snoc: "listLoop (pre @ [line]) = listStep (listLoop pre) line"
  by (simp add: listLoop_def)

lemma listStep_type:
  "(inList st \<longrightarrow> listType st = ''ul'' \<or> listType st = ''ol'') \<Longrightarrow>
   inList (listStep st line) \<longrightarrow>
     listType (listStep st line) = ''ul'' \<or> listType (listStep st line) = ''ol''"
  by (auto simp: listStep_def Let_def split: option.splits)

lemma listLoop_type:
  "inList (listLoop pre) \<longrightarrow> listType (listLoop pre) = ''ul'' \<or> listType (listLoop pre) = ''ol''"
proof (induction pre rule: rev_induct)
  case Nil
  then show ?case by (simp add: listLoop_def)
next
  case (snoc x xs)
  then show ?case using listStep_type[of "listLoop xs" x] by (simp add: listLoop_snoc)
qed

subsection \<open>Replacing one-character patterns and their runs\<close>

lemma charRe_Cls: "charRe P (Cls P)"
  by (simp add: charRe_def)

lemma charRe_Chr: "charRe (\<lambda>x. x = c) (Chr c)"
  by (simp add: charRe_def)

lemma rx_Star_char_hd:
  assumes "charRe P a"
  shows "\<exists>tl. rx (Star a) (MState p s g) = MState (runPrev P p s) (dropWhile P s) g # tl"
proof (induction s arbitrary: p)
  case Nil
  show ?case using assms by (subst rx.simps(7)) (simp add: charRe_def runPrev_def)
next
  case (Cons c cs)
  show ?case
  proof (cases "P c")
    case True
    from Cons[of "Some c"] obtain tl where
      "rx (Star a) (MState (Some c) cs g) = MState (runPrev P (Some c) cs) (dropWhile P cs) g # tl"
      by blast
    then show ?thesis using assms True
      by (subst rx.simps(7)) (simp add: charRe_def runPrev_def)
  next
    case False
    then show ?thesis using assms by (subst rx.simps(7)) (simp add: charRe_def runPrev_def)
  qed
qed

lemma exec_Plus_char:
  assumes "charRe P a"
  shows "exec_at (Plus a) p s =
     (case s of [] \<Rightarrow> None
      | c # cs \<Rightarrow> if P c then Some (MState (runPrev P (Some c) cs) (dropWhile P cs) []) else None)"
proof (cases s)
  case Nil
  then show ?thesis using assms by (simp add: exec_at_def Plus_def charRe_def)
next
  case (Cons c cs)
  show ?thesis
  proof (cases "P c")
    case True
    obtain tl where
      "rx (Star a) (MState (Some c) cs []) = MState (runPrev P (Some c) cs) (dropWhile P cs) [] # tl"
      using rx_Star_char_hd[OF assms] by blast
    then show ?thesis using assms True Cons by (simp add: exec_at_def Plus_def charRe_def)
  next
    case False
    then show ?thesis using assms Cons by (simp add: exec_at_def Plus_def charRe_def)
  qed
qed

lemma exec_char:
  assumes "charRe P a"
  shows "exec_at a p s =
     (case s of [] \<Rightarrow> None | c # cs \<Rightarrow> if P c then Some (MState (Some c) cs []) else None)"
  using assms by (simp add: exec_at_def charRe_def split: list.splits)

lemma replace_char_delete:
  assumes "charRe P a"
  shows "replace_g a (\<lambda>_. []) p s = filter (\<lambda>c. \<not> P c) s"
proof (induction s arbitrary: p)
  case Nil
  show ?case by (subst replace_g.simps) (simp add: exec_char[OF assms])
next
  case (Cons c cs)
  show ?case by (subst replace_g.simps) (simp add: exec_char[OF assms] Cons)
qed

lemma replace_Plus_char:
  "charRe P a \<Longrightarrow> replace_g (Plus a) (\<lambda>_. [d]) p s = collapseRuns P d s"
proof (induction P d s arbitrary: p rule: collapseRuns.induct)
  case (1 P d)
  show ?case by (subst replace_g.simps) (simp add: exec_Plus_char[OF 1])
next
  case (2 P d c cs)
  note cr = "2.prems"
  show ?case
  proof (cases "P c")
    case True
    have "length (dropWhile P cs) < Suc (length cs)"
      by (simp add: length_dropWhile_le less_Suc_eq_le)
    then show ?thesis using True "2.IH"(1)[OF True cr]
      by (subst replace_g.simps) (simp add: exec_Plus_char[OF cr])
  next
    case False
    then show ?thesis using "2.IH"(2)[OF False cr]
      by (subst replace_g.simps) (simp add: exec_Plus_char[OF cr])
  qed
qed

lemma collapseRuns_set: "set (collapseRuns P d s) \<subseteq> insert d {c \<in> set s. \<not> P c}"
proof (induction P d s rule: collapseRuns.induct)
  case (1 P d)
  then show ?case by simp
next
  case (2 P d c cs)
  have "set (dropWhile P cs) \<subseteq> set cs"
    by (simp add: set_dropWhileD subsetI)
  then show ?case using 2 by (auto split: if_splits)
qed

lemma trim_id:
  assumes "\<forall>c \<in> set s. \<not> isSpace c"
  shows "trim s = s"
proof -
  have 1: "dropWhile isSpace s = s"
    using assms by (cases s) auto
  have "\<forall>c \<in> set (rev s). \<not> isSpace c"
    using assms by simp
  then have 2: "dropWhile isSpace (rev s) = rev s"
    by (cases "rev s") auto
  show ?thesis by (simp add: trim_def 1 2)
qed

lemma hyphen_not_space: "\<not> isSpace CHR ''-''"
  by (simp add: isSpace_def code_def)

lemma slugify_eq:
  "slugify text =
     collapseRuns (\<lambda>c. c = CHR ''-'') CHR ''-''
       (collapseRuns isSpace CHR ''-'' (filter slugKeeps (map lowerChar text)))"
proof -
  let ?a = "filter slugKeeps (map lowerChar text)"
  let ?b = "collapseRuns isSpace CHR ''-'' ?a"
  let ?c = "collapseRuns (\<lambda>c. c = CHR ''-'') CHR ''-'' ?b"
  have b: "\<forall>c \<in> set ?b. \<not> isSpace c"
    using collapseRuns_set[of isSpace "CHR ''-''" ?a] hyphen_not_space by auto
  have c: "\<forall>c \<in> set ?c. \<not> isSpace c"
    using collapseRuns_set[of "\<lambda>c. c = CHR ''-''" "CHR ''-''" ?b] b hyphen_not_space by auto
  have "slugify text = trim ?c"
    unfolding slugify_def replaceAll_def toLowerCase_def
    by (simp add: replace_char_delete[OF charRe_Cls] replace_Plus_char[OF charRe_Cls]
        replace_Plus_char[OF charRe_Chr] slugKeeps_def[abs_def])
  then show ?thesis using trim_id[OF c] by simp
qed

subsection \<open>The paragraph pass on one block\<close>

lemma startsWith_append: "startsWith s w \<Longrightarrow> \<exists>r. s = w @ r"
  by (metis append_take_drop_id startsWith_def)

lemma exec_blank_none:
  "\<not> startsWith s [NL, NL] \<Longrightarrow> exec_at blankLinesRegex p s = None"
  by (cases s; cases "tl s")
     (auto simp: exec_at_def blankLinesRegex_def Plus_def startsWith_def)

lemma split_scan_nomatch:
  "\<not> includes_str s [NL, NL] \<Longrightarrow> split_scan blankLinesRegex p acc s = [acc @ s]"
proof (induction s arbitrary: p acc)
  case Nil
  then show ?case by simp
next
  case (Cons c cs)
  then have 1: "\<not> startsWith (c # cs) [NL, NL]" and 2: "\<not> includes_str cs [NL, NL]"
    by simp_all
  show ?case using Cons.IH[OF 2] exec_blank_none[OF 1] by simp
qed

lemma split_re_nomatch:
  "noBlankLine s \<Longrightarrow> split_re blankLinesRegex s = [s]"
proof (cases s)
  case Nil
  have "exec_at blankLinesRegex None [] = None"
    by (simp add: exec_blank_none startsWith_def)
  then show ?thesis using Nil by (simp add: split_re_def)
next
  case (Cons c cs)
  assume "noBlankLine s"
  then show ?thesis using Cons split_scan_nomatch[of s None "[]"]
    by (simp add: split_re_def noBlankLine_def)
qed

lemma match_re_at_start:
  "exec_at r None s \<noteq> None \<Longrightarrow> match_re r s \<noteq> None"
  by (cases s) (auto simp: match_re_def split: option.splits)

lemma rx_Alts_member: "a \<in> set as \<Longrightarrow> rx a st \<noteq> [] \<Longrightarrow> rx (Alts as) st \<noteq> []"
  by (induction as rule: Alts.induct) auto

lemma rx_LitI_self: "rx (LitI w) (MState p (w @ r) g) \<noteq> []"
  by (induction w arbitrary: p) simp_all

lemma rx_heading_alt:
  "49 \<le> code d \<and> code d \<le> 54 \<Longrightarrow>
   rx (Seq (ChrI CHR ''h'') (Cls (\<lambda>c. 49 \<le> code c \<and> code c \<le> 54)))
      (MState p (CHR ''h'' # d # r) g) \<noteq> []"
  by simp

lemma blockTagNames_cases:
  "t \<in> set blockTagNames \<Longrightarrow>
   t = ''h1'' \<or> t = ''h2'' \<or> t = ''h3'' \<or> t = ''h4'' \<or> t = ''h5'' \<or> t = ''h6''
   \<or> t = ''ul'' \<or> t = ''ol'' \<or> t = ''li'' \<or> t = ''blockquote'' \<or> t = ''pre''
   \<or> t = ''div'' \<or> t = ''figure'' \<or> t = ''hr'' \<or> t = ''table''"
  unfolding blockTagNames_def
  by (simp only: set_simps insert_iff empty_iff disj_assoc simp_thms)

lemma blockTag_exec:
  assumes "t \<in> set blockTagNames"
  shows "exec_at blockTagRegex None (CHR ''<'' # t @ r) \<noteq> None"
proof -
  let ?h = "Seq (ChrI CHR ''h'') (Cls (\<lambda>c. 49 \<le> code c \<and> code c \<le> 54))"
  let ?as = "[?h, LitI ''ul'', LitI ''ol'', LitI ''li'', LitI ''blockquote'', LitI ''pre'',
              LitI ''div'', LitI ''figure'', LitI ''hr'', LitI ''table'']"
  let ?st = "MState (Some CHR ''<'') (t @ r) []"
  have lit: "\<exists>a \<in> set ?as. rx a ?st \<noteq> []" if "LitI t \<in> set ?as"
    using that rx_LitI_self[of t "Some CHR ''<''" r "[]"] by blast
  have hd: "\<exists>a \<in> set ?as. rx a ?st \<noteq> []"
    if "t = [CHR ''h'', d]" and "49 \<le> code d \<and> code d \<le> 54" for d
  proof -
    have "rx ?h ?st \<noteq> []"
      using rx_heading_alt[OF that(2)] that(1) by simp
    then show ?thesis by (meson list.set_intros(1))
  qed
  from blockTagNames_cases[OF assms]
  have "\<exists>a \<in> set ?as. rx a ?st \<noteq> []"
  proof (elim disjE)
    assume "t = ''h1''" then show ?thesis by (intro hd[of "CHR ''1''"]) (simp_all add: code_def)
  next
    assume "t = ''h2''" then show ?thesis by (intro hd[of "CHR ''2''"]) (simp_all add: code_def)
  next
    assume "t = ''h3''" then show ?thesis by (intro hd[of "CHR ''3''"]) (simp_all add: code_def)
  next
    assume "t = ''h4''" then show ?thesis by (intro hd[of "CHR ''4''"]) (simp_all add: code_def)
  next
    assume "t = ''h5''" then show ?thesis by (intro hd[of "CHR ''5''"]) (simp_all add: code_def)
  next
    assume "t = ''h6''" then show ?thesis by (intro hd[of "CHR ''6''"]) (simp_all add: code_def)
  next
    assume "t = ''ul''" then show ?thesis by (intro lit) (simp del: LitI.simps)
  next
    assume "t = ''ol''" then show ?thesis by (intro lit) (simp del: LitI.simps)
  next
    assume "t = ''li''" then show ?thesis by (intro lit) (simp del: LitI.simps)
  next
    assume "t = ''blockquote''" then show ?thesis by (intro lit) (simp del: LitI.simps)
  next
    assume "t = ''pre''" then show ?thesis by (intro lit) (simp del: LitI.simps)
  next
    assume "t = ''div''" then show ?thesis by (intro lit) (simp del: LitI.simps)
  next
    assume "t = ''figure''" then show ?thesis by (intro lit) (simp del: LitI.simps)
  next
    assume "t = ''hr''" then show ?thesis by (intro lit) (simp del: LitI.simps)
  next
    assume "t = ''table''" then show ?thesis by (intro lit) (simp del: LitI.simps)
  qed
  then have "rx (Alts ?as) ?st \<noteq> []"
    using rx_Alts_member by blast
  then show ?thesis
    by (simp add: exec_at_def blockTagRegex_def split: list.splits)
qed

lemma blockTag_match:
  "startsWithBlockTag s \<Longrightarrow> match_re blockTagRegex s \<noteq> None"
proof -
  assume "startsWithBlockTag s"
  then obtain t where t: "t \<in> set blockTagNames" and "startsWith s (CHR ''<'' # t)"
    by (auto simp: startsWithBlockTag_def)
  then obtain r where "s = CHR ''<'' # t @ r"
    using startsWith_append by fastforce
  then show ?thesis using blockTag_exec[OF t] match_re_at_start by blast
qed

lemma paragraphBlock_tag:
  assumes "startsWithBlockTag (trim b)"
  shows "paragraphBlock b = trim b"
  using assms by (simp add: paragraphBlock_def Let_def blockTag_match)

lemma parseParagraphs_block:
  assumes "noBlankLine b" and "startsWithBlockTag (trim b)"
  shows "parseParagraphs b = trim b"
  using assms by (simp add: parseParagraphs_def split_re_nomatch paragraphBlock_tag)

subsection \<open>Matches end inside the input\<close>

lemma rx_char_suffix:
  "x \<in> set (case rest st of [] \<Rightarrow> [] | y # ys \<Rightarrow> if Q y then [MState (Some y) ys (caps st)] else []) \<Longrightarrow>
   suffix (rest x) (rest st)"
  by (cases "rest st") (auto simp: suffix_Cons split: if_splits)

lemma rx_suffix: "x \<in> set (rx r st) \<Longrightarrow> suffix (rest x) (rest st)"
proof (induction r st arbitrary: x rule: rx.induct)
  case (1 st)
  then show ?case by simp
next
  case (2 c st)
  then show ?case using rx_char_suffix[where Q = "\<lambda>y. y = c"] by simp
next
  case (3 c st)
  then show ?case using rx_char_suffix[where Q = "\<lambda>y. canonicalize y = canonicalize c"] by simp
next
  case (4 P st)
  then show ?case using rx_char_suffix[where Q = P] by simp
next
  case (5 a b st)
  from "5.prems" obtain y where y: "y \<in> set (rx a st)" and x: "x \<in> set (rx b y)"
    by auto
  have "suffix (rest x) (rest y)" using "5.IH"(2)[OF y x] .
  moreover have "suffix (rest y) (rest st)" using "5.IH"(1)[OF y] .
  ultimately show ?case by (rule suffix_order.trans)
next
  case (6 a b st)
  then show ?case by auto
next
  case (7 a st)
  have "x \<in> set (concat (map (rx (Star a))
       (filter (\<lambda>st'. length (rest st') < length (rest st)) (rx a st))) @ [st])"
    using "7.prems" by (subst (asm) rx.simps(7))
  then consider "x = st"
    | y where "y \<in> set (rx a st)" "length (rest y) < length (rest st)" "x \<in> set (rx (Star a) y)"
    by (auto simp del: rx.simps)
  then show ?case
  proof cases
    case 1
    then show ?thesis by simp
  next
    case 2
    have "suffix (rest x) (rest y)" using "7.IH"(2)[of y x] 2 by (simp del: rx.simps)
    moreover have "suffix (rest y) (rest st)" using "7.IH"(1)[OF 2(1)] .
    ultimately show ?thesis by (rule suffix_order.trans)
  qed
next
  case (8 a st)
  have "x \<in> set (st # concat (map (rx (LazyStar a))
       (filter (\<lambda>st'. length (rest st') < length (rest st)) (rx a st))))"
    using "8.prems" by (subst (asm) rx.simps(8))
  then consider "x = st"
    | y where "y \<in> set (rx a st)" "length (rest y) < length (rest st)" "x \<in> set (rx (LazyStar a) y)"
    by (auto simp del: rx.simps)
  then show ?case
  proof cases
    case 1
    then show ?thesis by simp
  next
    case 2
    have "suffix (rest x) (rest y)" using "8.IH"(2)[of y x] 2 by (simp del: rx.simps)
    moreover have "suffix (rest y) (rest st)" using "8.IH"(1)[OF 2(1)] .
    ultimately show ?thesis by (rule suffix_order.trans)
  qed
next
  case (9 n a st)
  then show ?case by auto
next
  case (10 st)
  then show ?case by (simp split: if_splits)
next
  case (11 st)
  then show ?case by (simp split: option.splits if_splits)
next
  case (12 st)
  then show ?case by (simp split: if_splits)
next
  case (13 st)
  then show ?case by (simp split: list.splits if_splits)
qed

subsection \<open>Passes that leave a text unchanged\<close>

lemma requires_none:
  "requires P r \<Longrightarrow> \<forall>c \<in> set (rest st). \<not> P c \<Longrightarrow> rx r st = []"
proof (induction r arbitrary: st)
  case (Chr c)
  then show ?case by (cases "rest st") auto
next
  case (ChrI c)
  then show ?case by (cases "rest st") auto
next
  case (Cls Q)
  then show ?case by (cases "rest st") auto
next
  case (Seq a b)
  show ?case
  proof (cases "requires P a")
    case True
    then show ?thesis using Seq by simp
  next
    case False
    then have b: "requires P b" using Seq.prems by simp
    have "\<forall>x \<in> set (rx a st). rx b x = []"
    proof
      fix x assume "x \<in> set (rx a st)"
      then have "set (rest x) \<subseteq> set (rest st)" using rx_suffix set_mono_suffix by blast
      then show "rx b x = []" using Seq.IH(2)[OF b] Seq.prems(2) by blast
    qed
    then show ?thesis by simp
  qed
next
  case (Alt a b)
  then show ?case by simp
next
  case (Grp n a)
  then show ?case by simp
qed simp_all

lemma exec_requires_none:
  "requires P r \<Longrightarrow> \<forall>c \<in> set s. \<not> P c \<Longrightarrow> exec_at r p s = None"
  by (simp add: exec_at_def requires_none)

lemma replace_g_id:
  "(\<And>k. k \<le> length s \<Longrightarrow> exec_at r (prevAt p s k) (drop k s) = None) \<Longrightarrow>
   replace_g r f p s = s"
proof (induction s arbitrary: p)
  case Nil
  from Nil[of 0] show ?case by (subst replace_g.simps) (simp add: prevAt_def)
next
  case (Cons c cs)
  have 0: "exec_at r p (c # cs) = None" using Cons.prems[of 0] by (simp add: prevAt_def)
  have "replace_g r f (Some c) cs = cs"
  proof (rule Cons.IH)
    fix k assume "k \<le> length cs"
    then show "exec_at r (prevAt (Some c) cs k) (drop k cs) = None"
      using Cons.prems[of "Suc k"] by (cases k) (simp_all add: prevAt_def)
  qed
  then show ?case using 0 by (subst replace_g.simps) simp
qed

lemma replace_requires_id:
  assumes "requires P r" and "\<forall>c \<in> set s. \<not> P c"
  shows "replace_g r f p s = s"
proof (rule replace_g_id)
  fix k
  have "\<forall>c \<in> set (drop k s). \<not> P c" using assms(2) by (meson in_set_dropD)
  then show "exec_at r (prevAt p s k) (drop k s) = None"
    using exec_requires_none[OF assms(1)] by blast
qed

lemma replace_anchored_id:
  assumes "\<forall>c \<in> set s. \<not> isLineTerminator c"
    and "exec_at (Seq LineStart r) None s = None"
  shows "replace_g (Seq LineStart r) f None s = s"
proof (rule replace_g_id)
  fix k assume "k \<le> length s"
  show "exec_at (Seq LineStart r) (prevAt None s k) (drop k s) = None"
  proof (cases k)
    case 0
    then show ?thesis using assms(2) by (simp add: prevAt_def)
  next
    case (Suc j)
    then have "j < length s" using \<open>k \<le> length s\<close> by simp
    then have "\<not> isLineTerminator (s ! j)" using assms(1) by simp
    then show ?thesis using Suc by (simp add: prevAt_def exec_at_def)
  qed
qed

lemma rx_Lit_prefix:
  "rx (Lit w) (MState p (w @ s) g) = [MState (if w = [] then p else Some (last w)) s g]"
  by (induction w arbitrary: p) auto

lemma rx_Lit_noprefix: "\<not> prefix w s \<Longrightarrow> rx (Lit w) (MState p s g) = []"
  by (induction w arbitrary: p s) (auto split: list.splits)

lemma rx_Seq_first:
  assumes "rx a st = xs @ x # ys" and "\<forall>x' \<in> set xs. rx b x' = []" and "rx b x = y # zs"
  shows "\<exists>ws. rx (Seq a b) st = y # ws"
proof -
  have 1: "rx (Seq a b) st = concat (map (rx b) xs) @ rx b x @ concat (map (rx b) ys)"
    using assms(1) by simp
  have 2: "concat (map (rx b) xs) = []" using assms(2) by simp
  show ?thesis unfolding 1 2 assms(3) by simp
qed

subsection \<open>Lazy runs\<close>

lemma rx_LazyStar_head: "\<exists>ys. rx (LazyStar a) st = st # ys"
  by (subst rx.simps(8)) simp

lemma rx_LazyStar_run:
  "\<forall>c \<in> set u. P c \<Longrightarrow>
   \<exists>xs. rx (LazyStar (Cls P)) (MState p (u @ v) g) =
          xs @ rx (LazyStar (Cls P)) (MState (if u = [] then p else Some (last u)) v g)
        \<and> (\<forall>x \<in> set xs. \<exists>w. w \<noteq> [] \<and> suffix w u \<and> rest x = w @ v \<and> caps x = g)"
proof (induction u arbitrary: p)
  case Nil
  show ?case by (rule exI[of _ "[]"]) simp
next
  case (Cons c u)
  then have Pc: "P c" and Pu: "\<forall>c \<in> set u. P c" by simp_all
  from Cons.IH[OF Pu, of "Some c"] obtain xs where
    xs: "rx (LazyStar (Cls P)) (MState (Some c) (u @ v) g) =
          xs @ rx (LazyStar (Cls P)) (MState (if u = [] then Some c else Some (last u)) v g)"
    and el: "\<forall>x \<in> set xs. \<exists>w. w \<noteq> [] \<and> suffix w u \<and> rest x = w @ v \<and> caps x = g"
    by blast
  let ?st = "MState p ((c # u) @ v) g"
  have 1: "rx (LazyStar (Cls P)) ?st = ?st # rx (LazyStar (Cls P)) (MState (Some c) (u @ v) g)"
    using Pc by (subst rx.simps(8)) simp
  have 2: "(if c # u = [] then p else Some (last (c # u))) = (if u = [] then Some c else Some (last u))"
    by simp
  show ?case
  proof (intro exI[of _ "?st # xs"] conjI ballI)
    show "rx (LazyStar (Cls P)) ?st =
      (?st # xs) @ rx (LazyStar (Cls P)) (MState (if c # u = [] then p else Some (last (c # u))) v g)"
      unfolding 1 2 xs by simp
  next
    fix x assume "x \<in> set (?st # xs)"
    then consider "x = ?st" | "x \<in> set xs" by auto
    then show "\<exists>w. w \<noteq> [] \<and> suffix w (c # u) \<and> rest x = w @ v \<and> caps x = g"
    proof cases
      case 1
      then show ?thesis by (intro exI[of _ "c # u"]) simp
    next
      case 2
      then obtain w where "w \<noteq> []" "suffix w u" "rest x = w @ v" "caps x = g"
        using el by blast
      then show ?thesis by (intro exI[of _ w]) (simp add: suffix_Cons)
    qed
  qed
qed

lemma rx_LazyPlus_run:
  assumes "u \<noteq> []" and "\<forall>c \<in> set u. P c"
  shows "\<exists>xs ys. rx (LazyPlus (Cls P)) (MState p (u @ v) g) =
            xs @ MState (Some (last u)) v g # ys
          \<and> (\<forall>x \<in> set xs. \<exists>w. w \<noteq> [] \<and> suffix w u \<and> rest x = w @ v \<and> caps x = g)"
proof -
  from assms obtain c u' where u: "u = c # u'" by (cases u) auto
  then have Pc: "P c" and Pu: "\<forall>c \<in> set u'. P c" using assms by simp_all
  from rx_LazyStar_run[OF Pu, of "Some c" v g] obtain xs where
    xs: "rx (LazyStar (Cls P)) (MState (Some c) (u' @ v) g) =
          xs @ rx (LazyStar (Cls P)) (MState (if u' = [] then Some c else Some (last u')) v g)"
    and el: "\<forall>x \<in> set xs. \<exists>w. w \<noteq> [] \<and> suffix w u' \<and> rest x = w @ v \<and> caps x = g"
    by blast
  obtain ys where ys: "rx (LazyStar (Cls P)) (MState (Some (last u)) v g) = MState (Some (last u)) v g # ys"
    using rx_LazyStar_head by blast
  have l: "(if u' = [] then Some c else Some (last u')) = Some (last u)" using u by simp
  have "rx (LazyPlus (Cls P)) (MState p (u @ v) g) = xs @ MState (Some (last u)) v g # ys"
    using Pc xs ys unfolding l by (simp add: LazyPlus_def u)
  moreover have "\<forall>x \<in> set xs. \<exists>w. w \<noteq> [] \<and> suffix w u \<and> rest x = w @ v \<and> caps x = g"
    using el u by (metis suffix_Cons)
  ultimately show ?thesis by blast
qed

lemma rx_Grp_LazyPlus_run:
  assumes "u \<noteq> []" and "\<forall>c \<in> set u. P c"
  shows "\<exists>xs ys. rx (Grp n (LazyPlus (Cls P))) (MState p (u @ v) g) =
            xs @ MState (Some (last u)) v ((n, u) # g) # ys
          \<and> (\<forall>x \<in> set xs. \<exists>w. w \<noteq> [] \<and> suffix w u \<and> rest x = w @ v)"
proof -
  from rx_LazyPlus_run[OF assms, of p v g] obtain xs ys where
    r: "rx (LazyPlus (Cls P)) (MState p (u @ v) g) = xs @ MState (Some (last u)) v g # ys"
    and el: "\<forall>x \<in> set xs. \<exists>w. w \<noteq> [] \<and> suffix w u \<and> rest x = w @ v \<and> caps x = g"
    by blast
  let ?F = "\<lambda>st'. MState (prev st') (rest st')
              ((n, take (length (u @ v) - length (rest st')) (u @ v)) # caps st')"
  have "rx (Grp n (LazyPlus (Cls P))) (MState p (u @ v) g) =
          map ?F xs @ MState (Some (last u)) v ((n, u) # g) # map ?F ys"
    by (simp add: r)
  moreover have "\<forall>x \<in> set (map ?F xs). \<exists>w. w \<noteq> [] \<and> suffix w u \<and> rest x = w @ v"
    using el by auto
  ultimately show ?thesis by blast
qed

subsection \<open>The identifier pass on a level-2 heading\<close>

lemma noprefix_quote_gt:
  assumes "w \<noteq> []" and "CHR ''>'' \<notin> set w"
  shows "\<not> prefix [DQ, CHR ''>''] (w @ DQ # CHR ''>'' # v)"
proof (cases w)
  case Nil
  then show ?thesis using assms by simp
next
  case (Cons a w')
  show ?thesis
  proof (cases w')
    case Nil
    then show ?thesis using Cons by simp
  next
    case (Cons b w'')
    then show ?thesis using \<open>w = a # w'\<close> assms(2) by auto
  qed
qed

lemma noprefix_hd:
  assumes "w \<noteq> []" and "c \<notin> set w"
  shows "\<not> prefix (c # q) (w @ v)"
  using assms by (cases w) auto

lemma h2Id_exec:
  assumes "T \<noteq> []" and "\<forall>c \<in> set T. isDot c \<and> c \<noteq> CHR ''<'' \<and> c \<noteq> CHR ''>''"
  shows "\<exists>p' ws. rx h2IdRegex
            (MState p ((''<h2 id='' @ [DQ]) @ T @ [DQ, CHR ''>''] @ T @ ''</h2>'') []) =
          MState p' [] [(2, T), (1, T)] # ws"
proof -
  let ?w1 = "''<h2 id='' @ [DQ]" and ?w2 = "[DQ, CHR ''>'']" and ?w3 = "''</h2>''"
  let ?LP = "LazyPlus (Cls isDot)"
  let ?R2 = "Seq (Grp 2 ?LP) (Lit ?w3)"
  let ?R1 = "Seq (Lit ?w2) ?R2"
  have dot: "\<forall>c \<in> set T. isDot c" and nolt: "CHR ''<'' \<notin> set T" and nogt: "CHR ''>'' \<notin> set T"
    using assms(2) by auto
  have re: "h2IdRegex = Seq (Lit ?w1) (Seq (Grp 1 ?LP) ?R1)"
    by (simp add: h2IdRegex_def del: Lit.simps)
  \<comment> \<open>the second group and the end tag\<close>
  let ?st2 = "MState (Some CHR ''>'') (T @ ?w3) [(1, T)]"
  from rx_Grp_LazyPlus_run[OF assms(1) dot, of 2 "Some CHR ''>''" ?w3 "[(1, T)]"]
  obtain xs2 ys2 where
    g2: "rx (Grp 2 ?LP) ?st2 = xs2 @ MState (Some (last T)) ?w3 [(2, T), (1, T)] # ys2"
    and el2: "\<forall>x \<in> set xs2. \<exists>w. w \<noteq> [] \<and> suffix w T \<and> rest x = w @ ?w3"
    by blast
  have fail2: "\<forall>x \<in> set xs2. rx (Lit ?w3) x = []"
  proof
    fix x assume "x \<in> set xs2"
    then obtain w where w: "w \<noteq> []" "suffix w T" "rest x = w @ ?w3" using el2 by blast
    then have "CHR ''<'' \<notin> set w" using nolt set_mono_suffix by blast
    then have "\<not> prefix ?w3 (rest x)" using w noprefix_hd[of w "CHR ''<''" "''/h2>''" ?w3] by simp
    then show "rx (Lit ?w3) x = []" using rx_Lit_noprefix[of ?w3 "rest x" "prev x" "caps x"] by simp
  qed
  have last2: "rx (Lit ?w3) (MState (Some (last T)) ?w3 [(2, T), (1, T)]) =
                 [MState (Some CHR ''>'') [] [(2, T), (1, T)]]"
    using rx_Lit_prefix[of ?w3 "Some (last T)" "[]" "[(2, T), (1, T)]"] by simp
  from rx_Seq_first[OF g2 fail2 last2]
  obtain ws2 where r2: "rx ?R2 ?st2 = MState (Some CHR ''>'') [] [(2, T), (1, T)] # ws2"
    by blast
  \<comment> \<open>the first group and the end of the start tag\<close>
  let ?st1 = "MState (Some DQ) (T @ ?w2 @ T @ ?w3) []"
  from rx_Grp_LazyPlus_run[OF assms(1) dot, of 1 "Some DQ" "?w2 @ T @ ?w3" "[]"]
  obtain xs1 ys1 where
    g1: "rx (Grp 1 ?LP) ?st1 = xs1 @ MState (Some (last T)) (?w2 @ T @ ?w3) [(1, T)] # ys1"
    and el1: "\<forall>x \<in> set xs1. \<exists>w. w \<noteq> [] \<and> suffix w T \<and> rest x = w @ ?w2 @ T @ ?w3"
    by blast
  have fail1: "\<forall>x \<in> set xs1. rx ?R1 x = []"
  proof
    fix x assume "x \<in> set xs1"
    then obtain w where w: "w \<noteq> []" "suffix w T" "rest x = w @ ?w2 @ T @ ?w3" using el1 by blast
    then have "CHR ''>'' \<notin> set w" using nogt set_mono_suffix by blast
    then have "\<not> prefix ?w2 (rest x)" using w noprefix_quote_gt[of w "T @ ?w3"] by simp
    then have "rx (Lit ?w2) x = []" using rx_Lit_noprefix[of ?w2 "rest x" "prev x" "caps x"] by simp
    then show "rx ?R1 x = []" by (simp del: Lit.simps)
  qed
  have "rx (Lit ?w2) (MState (Some (last T)) (?w2 @ T @ ?w3) [(1, T)]) = [?st2]"
    using rx_Lit_prefix[of ?w2 "Some (last T)" "T @ ?w3" "[(1, T)]"] by simp
  then have last1: "rx ?R1 (MState (Some (last T)) (?w2 @ T @ ?w3) [(1, T)]) =
                 MState (Some CHR ''>'') [] [(2, T), (1, T)] # ws2"
    using r2 by (simp del: Lit.simps)
  from rx_Seq_first[OF g1 fail1 last1]
  obtain ws1 where r1: "rx (Seq (Grp 1 ?LP) ?R1) ?st1 = MState (Some CHR ''>'') [] [(2, T), (1, T)] # ws1"
    by blast
  have "rx (Lit ?w1) (MState p (?w1 @ T @ ?w2 @ T @ ?w3) []) = [?st1]"
    using rx_Lit_prefix[of ?w1 p "T @ ?w2 @ T @ ?w3" "[]"] by simp
  then have "rx h2IdRegex (MState p (?w1 @ T @ ?w2 @ T @ ?w3) []) =
               MState (Some CHR ''>'') [] [(2, T), (1, T)] # ws1"
    unfolding re using r1 by (simp del: Lit.simps)
  then show ?thesis by blast
qed

subsection \<open>The heading passes on one heading line\<close>

lemma firstChr_none:
  "firstChr c r \<Longrightarrow> rest st = [] \<or> hd (rest st) \<noteq> c \<Longrightarrow> rx r st = []"
proof (induction r arbitrary: st)
  case (Chr d)
  then show ?case by (cases "rest st") auto
next
  case (Seq a b)
  then show ?case by simp
next
  case (Grp n a)
  then show ?case by simp
qed simp_all

lemma replace_g_step:
  "exec_at r p (c # s) = None \<Longrightarrow> replace_g r f p (c # s) = c # replace_g r f (Some c) s"
  by (subst replace_g.simps) simp

lemma replace_g_Nil: "exec_at r p [] = None \<Longrightarrow> replace_g r f p [] = []"
  by (subst replace_g.simps) simp

lemma replace_g_skip:
  "firstChr c0 r \<Longrightarrow> c0 \<notin> set u \<Longrightarrow>
   replace_g r f p (u @ v) = u @ replace_g r f (if u = [] then p else Some (last u)) v"
proof (induction u arbitrary: p)
  case Nil
  then show ?case by simp
next
  case (Cons c u)
  have "exec_at r p (c # u @ v) = None"
    using Cons.prems firstChr_none[of c0 r "MState p (c # u @ v) []"] by (auto simp: exec_at_def)
  then have "replace_g r f p ((c # u) @ v) = c # replace_g r f (Some c) (u @ v)"
    using replace_g_step by simp
  then show ?case using Cons by simp
qed

lemma rx_Star_stop:
  "charRe P a \<Longrightarrow> s \<noteq> [] \<Longrightarrow> \<not> P (hd s) \<Longrightarrow> rx (Star a) (MState p s g) = [MState p s g]"
  by (subst rx.simps(7)) (cases s; simp add: charRe_def)

lemma rx_Plus_one:
  "P c \<Longrightarrow> s \<noteq> [] \<Longrightarrow> \<not> P (hd s) \<Longrightarrow>
   rx (Plus (Cls P)) (MState p (c # s) g) = [MState (Some c) s g]"
  by (simp add: Plus_def rx_Star_stop[OF charRe_Cls])

lemma rx_Plus_all:
  assumes "s \<noteq> []" and "\<forall>c \<in> set s. P c"
  shows "\<exists>tl. rx (Plus (Cls P)) (MState p s g) = MState (Some (last s)) [] g # tl"
proof -
  from assms obtain c cs where s: "s = c # cs" by (cases s) auto
  have d: "dropWhile P cs = []" and t: "takeWhile P cs = cs" using assms(2) s by auto
  obtain tl where "rx (Star (Cls P)) (MState (Some c) cs g) =
      MState (runPrev P (Some c) cs) (dropWhile P cs) g # tl"
    using rx_Star_char_hd[OF charRe_Cls] by blast
  then have "rx (Star (Cls P)) (MState (Some c) cs g) = MState (Some (last s)) [] g # tl"
    using s by (simp add: runPrev_def d t)
  then show ?thesis using assms(2) s by (simp add: Plus_def)
qed

lemma headerRegex_unfold:
  "headerRegex k =
     Seq LineStart (Seq (Lit (replicate k CHR ''#''))
       (Seq (Plus (Cls isSpace)) (Seq (Grp 1 (Plus (Cls isDot))) LineEnd)))"
  by (simp add: headerRegex_def)

lemma space_isSpace: "isSpace CHR '' ''"
  by (simp add: isSpace_def code_def)

lemma header_exec:
  assumes "t \<noteq> []" and "\<not> isSpace (hd t)" and "\<forall>c \<in> set t. isDot c"
  shows "exec_at (headerRegex k) None (replicate k CHR ''#'' @ CHR '' '' # t) =
           Some (MState (Some (last t)) [] [(1, t)])"
proof -
  let ?h = "replicate k CHR ''#''"
  let ?p1 = "if ?h = [] then None else Some (last ?h)"
  let ?R3 = "Seq (Grp 1 (Plus (Cls isDot))) LineEnd"
  let ?R2 = "Seq (Plus (Cls isSpace)) ?R3"
  obtain tl where pl: "rx (Plus (Cls isDot)) (MState (Some CHR '' '') t []) =
      MState (Some (last t)) [] [] # tl"
    using rx_Plus_all[OF assms(1,3)] by blast
  have g: "rx (Grp 1 (Plus (Cls isDot))) (MState (Some CHR '' '') t []) =
      [] @ MState (Some (last t)) [] [(1, t)] #
        map (\<lambda>st'. MState (prev st') (rest st') ((1, take (length t - length (rest st')) t) # caps st')) tl"
    by (simp add: pl)
  have e: "rx LineEnd (MState (Some (last t)) [] [(1, t)]) = [MState (Some (last t)) [] [(1, t)]]"
    by simp
  from rx_Seq_first[OF g _ e] obtain ws where
    r3: "rx ?R3 (MState (Some CHR '' '') t []) = MState (Some (last t)) [] [(1, t)] # ws"
    by auto
  have "rx (Plus (Cls isSpace)) (MState ?p1 (CHR '' '' # t) []) = [MState (Some CHR '' '') t []]"
    using rx_Plus_one[of isSpace "CHR '' ''" t] assms(1,2) space_isSpace by simp
  then have r2: "rx ?R2 (MState ?p1 (CHR '' '' # t) []) = MState (Some (last t)) [] [(1, t)] # ws"
    using r3 by simp
  have "rx (Lit ?h) (MState None (?h @ CHR '' '' # t) []) = [MState ?p1 (CHR '' '' # t) []]"
    by (rule rx_Lit_prefix)
  then have "rx (headerRegex k) (MState None (?h @ CHR '' '' # t) []) =
      MState (Some (last t)) [] [(1, t)] # ws"
    unfolding headerRegex_unfold using r2 by simp
  then show ?thesis by (simp add: exec_at_def)
qed

lemma header_hit:
  assumes "t \<noteq> []" and "\<not> isSpace (hd t)" and "\<forall>c \<in> set t. isDot c"
  shows "replaceAll (headerRegex k) f (replicate k CHR ''#'' @ CHR '' '' # t) =
           f (MState (Some (last t)) [] [(1, t)])"
proof -
  have "\<not> isLineTerminator (last t)" using assms(1,3) by (simp add: isDot_def)
  then have "exec_at (headerRegex k) (Some (last t)) [] = None"
    by (simp add: exec_at_def headerRegex_unfold)
  then have n: "replace_g (headerRegex k) f (Some (last t)) [] = []"
    by (rule replace_g_Nil)
  show ?thesis
    unfolding replaceAll_def
    by (subst replace_g.simps) (simp add: header_exec[OF assms] n)
qed

lemma hash_isDot: "isDot CHR ''#''" and space_isDot: "isDot CHR '' ''"
  by (simp_all add: isDot_def isLineTerminator_def code_def)

lemma header_skip:
  assumes "k < j" and "\<forall>c \<in> set t. isDot c"
  shows "replaceAll (headerRegex j) f (replicate k CHR ''#'' @ CHR '' '' # t) =
           replicate k CHR ''#'' @ CHR '' '' # t"
proof -
  let ?s = "replicate k CHR ''#'' @ CHR '' '' # t"
  have "\<not> prefix (replicate j CHR ''#'') ?s"
  proof
    assume "prefix (replicate j CHR ''#'') ?s"
    then have "take j ?s = replicate j CHR ''#''"
      by (metis length_replicate prefix_def append_eq_conv_conj)
    then have "take j ?s ! k = CHR ''#''" using assms(1) by simp
    then show False using assms(1) by (simp add: nth_append)
  qed
  then have "rx (Lit (replicate j CHR ''#'')) (MState None ?s []) = []"
    by (rule rx_Lit_noprefix)
  then have e: "exec_at (Seq LineStart (Seq (Lit (replicate j CHR ''#''))
       (Seq (Plus (Cls isSpace)) (Seq (Grp 1 (Plus (Cls isDot))) LineEnd)))) None ?s = None"
    by (simp add: exec_at_def)
  have l: "\<forall>c \<in> set ?s. \<not> isLineTerminator c"
    using assms(2) hash_isDot space_isDot by (auto simp: isDot_def)
  show ?thesis
    unfolding replaceAll_def headerRegex_unfold by (rule replace_anchored_id[OF l e])
qed

lemma header_html:
  assumes "0 < j" and "\<forall>c \<in> set s. \<not> isLineTerminator c"
  shows "replaceAll (headerRegex j) f (CHR ''<'' # s) = CHR ''<'' # s"
proof -
  have "\<not> prefix (replicate j CHR ''#'') (CHR ''<'' # s)"
    using assms(1) by (cases j) simp_all
  then have "rx (Lit (replicate j CHR ''#'')) (MState None (CHR ''<'' # s) []) = []"
    by (rule rx_Lit_noprefix)
  then have e: "exec_at (Seq LineStart (Seq (Lit (replicate j CHR ''#''))
       (Seq (Plus (Cls isSpace)) (Seq (Grp 1 (Plus (Cls isDot))) LineEnd)))) None (CHR ''<'' # s) = None"
    by (simp add: exec_at_def)
  have l: "\<forall>c \<in> set (CHR ''<'' # s). \<not> isLineTerminator c"
    using assms(2) by (simp add: isLineTerminator_def code_def)
  show ?thesis
    unfolding replaceAll_def headerRegex_unfold by (rule replace_anchored_id[OF l e])
qed

lemma h2Id_Nil: "exec_at h2IdRegex p [] = None"
  by (simp add: exec_at_def h2IdRegex_def)

lemma h2Id_firstChr: "firstChr CHR ''<'' h2IdRegex"
  by (simp add: h2IdRegex_def)

lemma h2Id_hit:
  assumes "T \<noteq> []" and "\<forall>c \<in> set T. isDot c \<and> c \<noteq> CHR ''<'' \<and> c \<noteq> CHR ''>''"
  shows "replaceAll h2IdRegex (\<lambda>m. F (grps m 2))
           ((''<h2 id='' @ [DQ]) @ T @ [DQ, CHR ''>''] @ T @ ''</h2>'') = F T"
proof -
  define s where "s = (''<h2 id='' @ [DQ]) @ T @ [DQ, CHR ''>''] @ T @ ''</h2>''"
  obtain p' ws where "rx h2IdRegex (MState None s []) = MState p' [] [(2, T), (1, T)] # ws"
    unfolding s_def using h2Id_exec[OF assms] by blast
  then have e: "exec_at h2IdRegex None s = Some (MState p' [] [(2, T), (1, T)])"
    by (simp add: exec_at_def)
  have n: "replace_g h2IdRegex (\<lambda>m. F (grps m 2)) p' [] = []"
    using h2Id_Nil by (rule replace_g_Nil)
  have g: "grps (MState p' [] [(2, T), (k, T)]) 2 = T" for k
    by (simp add: grps_def grp_def)
  have l: "0 < length s"
    by (simp add: s_def)
  have "replace_g h2IdRegex (\<lambda>m. F (grps m 2)) None s = F T"
    by (subst replace_g.simps) (simp add: e n g l)
  then show ?thesis by (simp add: replaceAll_def s_def)
qed

lemma h2Id_other:
  assumes "d \<noteq> CHR ''2''" and "d \<noteq> CHR ''<''" and "CHR ''<'' \<notin> set t"
  shows "replaceAll h2IdRegex f (''<h'' @ d # ''>'' @ t @ ''</h'' @ d # ''>'') =
           ''<h'' @ d # ''>'' @ t @ ''</h'' @ d # ''>''"
proof -
  let ?u1 = "CHR ''h'' # d # CHR ''>'' # t"
  let ?v1 = "CHR ''<'' # CHR ''/'' # CHR ''h'' # d # ''>''"
  let ?u2 = "CHR ''/'' # CHR ''h'' # d # ''>''"
  have e1: "exec_at h2IdRegex None (CHR ''<'' # ?u1 @ ?v1) = None"
    using assms(1) by (simp add: exec_at_def h2IdRegex_def)
  have e2: "exec_at h2IdRegex p (CHR ''<'' # ?u2) = None" for p
    by (simp add: exec_at_def h2IdRegex_def)
  have u1: "CHR ''<'' \<notin> set ?u1" using assms(2,3) by auto
  have u2: "CHR ''<'' \<notin> set ?u2" using assms(2) by auto
  have 4: "replace_g h2IdRegex f p (?u2 @ []) = ?u2" for p
    using replace_g_skip[OF h2Id_firstChr u2, of f p "[]"] replace_g_Nil[OF h2Id_Nil]
    by simp
  have 3: "replace_g h2IdRegex f p ?v1 = ?v1" for p
    using replace_g_step[OF e2, of f p] 4 by simp
  have 2: "replace_g h2IdRegex f p (?u1 @ ?v1) = ?u1 @ ?v1" for p
    using replace_g_skip[OF h2Id_firstChr u1, of f p ?v1] 3 by simp
  have 1: "replace_g h2IdRegex f None (CHR ''<'' # ?u1 @ ?v1) = CHR ''<'' # ?u1 @ ?v1"
    using replace_g_step[OF e1, of f] 2 by simp
  then show ?thesis by (simp add: replaceAll_def)
qed

lemma grps_single: "grps (MState p r [(n, w)]) n = w"
  by (simp add: grps_def grp_def)

lemma parseHeaders_h2:
  assumes "t \<noteq> []" and "\<not> isSpace (hd t)"
    and "\<forall>c \<in> set t. isDot c \<and> c \<noteq> CHR ''<'' \<and> c \<noteq> CHR ''>''"
  shows "parseHeaders (replicate 2 CHR ''#'' @ CHR '' '' # t) =
           ''<h2 id='' @ [DQ] @ slugify t @ [DQ] @ ''>'' @ t @ ''</h2>''"
proof -
  let ?s = "replicate 2 CHR ''#'' @ CHR '' '' # t"
  let ?H = "''<h2 id='' @ [DQ] @ t @ [DQ] @ ''>'' @ t @ ''</h2>''"
  have dot: "\<forall>c \<in> set t. isDot c" using assms(3) by simp
  have s6: "replaceAll (headerRegex 6) f ?s = ?s" for f
    by (rule header_skip) (simp, rule dot)
  have s5: "replaceAll (headerRegex 5) f ?s = ?s" for f
    by (rule header_skip) (simp, rule dot)
  have s4: "replaceAll (headerRegex 4) f ?s = ?s" for f
    by (rule header_skip) (simp, rule dot)
  have s3: "replaceAll (headerRegex 3) f ?s = ?s" for f
    by (rule header_skip) (simp, rule dot)
  have hit: "replaceAll (headerRegex 2) f ?s = f (MState (Some (last t)) [] [(1, t)])" for f
    by (rule header_hit[OF assms(1,2) dot])
  have nl: "\<forall>c \<in> set (''h2 id='' @ [DQ] @ t @ [DQ] @ ''>'' @ t @ ''</h2>''). \<not> isLineTerminator c"
    using dot by (auto simp: isDot_def isLineTerminator_def code_def)
  have h1: "replaceAll (headerRegex 1) f ?H = ?H" for f
    using header_html[OF _ nl, of 1 f] by simp
  have idp: "replaceAll h2IdRegex
      (\<lambda>m. ''<h2 id='' @ [DQ] @ slugify (grps m 2) @ [DQ] @ ''>'' @ grps m 2 @ ''</h2>'') ?H =
      ''<h2 id='' @ [DQ] @ slugify t @ [DQ] @ ''>'' @ t @ ''</h2>''"
    using h2Id_hit[OF assms(1,3),
        where F = "\<lambda>x. ''<h2 id='' @ [DQ] @ slugify x @ [DQ] @ ''>'' @ x @ ''</h2>''"]
    by simp
  show ?thesis
    unfolding parseHeaders_def Let_def s6 s5 s4 s3 hit grps_single h1 idp ..
qed

lemma parseHeaders_h1:
  assumes "t \<noteq> []" and "\<not> isSpace (hd t)"
    and "\<forall>c \<in> set t. isDot c \<and> c \<noteq> CHR ''<'' \<and> c \<noteq> CHR ''>''"
  shows "parseHeaders (replicate 1 CHR ''#'' @ CHR '' '' # t) = ''<h1>'' @ t @ ''</h1>''"
proof -
  let ?s = "replicate 1 CHR ''#'' @ CHR '' '' # t"
  let ?H = "''<h1>'' @ t @ ''</h1>''"
  have dot: "\<forall>c \<in> set t. isDot c" using assms(3) by simp
  have nolt: "CHR ''<'' \<notin> set t" using assms(3) by auto
  have s6: "replaceAll (headerRegex 6) f ?s = ?s" for f
    by (rule header_skip) (simp, rule dot)
  have s5: "replaceAll (headerRegex 5) f ?s = ?s" for f
    by (rule header_skip) (simp, rule dot)
  have s4: "replaceAll (headerRegex 4) f ?s = ?s" for f
    by (rule header_skip) (simp, rule dot)
  have s3: "replaceAll (headerRegex 3) f ?s = ?s" for f
    by (rule header_skip) (simp, rule dot)
  have s2: "replaceAll (headerRegex 2) f ?s = ?s" for f
    by (rule header_skip) (simp, rule dot)
  have hit: "replaceAll (headerRegex 1) f ?s = f (MState (Some (last t)) [] [(1, t)])" for f
    by (rule header_hit[OF assms(1,2) dot])
  have nl: "\<forall>c \<in> set (''h1>'' @ t @ ''</h1>''). \<not> isLineTerminator c"
    using dot by (auto simp: isDot_def isLineTerminator_def code_def)
  have idp: "replaceAll h2IdRegex f ?H = ?H" for f
    using h2Id_other[OF _ _ nolt, of "CHR ''1''" f] by simp
  show ?thesis
    unfolding parseHeaders_def Let_def s6 s5 s4 s3 s2 hit grps_single idp ..
qed

lemma parseHeaders_h3:
  assumes "t \<noteq> []" and "\<not> isSpace (hd t)"
    and "\<forall>c \<in> set t. isDot c \<and> c \<noteq> CHR ''<'' \<and> c \<noteq> CHR ''>''"
  shows "parseHeaders (replicate 3 CHR ''#'' @ CHR '' '' # t) = ''<h3>'' @ t @ ''</h3>''"
proof -
  let ?s = "replicate 3 CHR ''#'' @ CHR '' '' # t"
  let ?H = "''<h3>'' @ t @ ''</h3>''"
  have dot: "\<forall>c \<in> set t. isDot c" using assms(3) by simp
  have nolt: "CHR ''<'' \<notin> set t" using assms(3) by auto
  have s6: "replaceAll (headerRegex 6) f ?s = ?s" for f
    by (rule header_skip) (simp, rule dot)
  have s5: "replaceAll (headerRegex 5) f ?s = ?s" for f
    by (rule header_skip) (simp, rule dot)
  have s4: "replaceAll (headerRegex 4) f ?s = ?s" for f
    by (rule header_skip) (simp, rule dot)
  have hit: "replaceAll (headerRegex 3) f ?s = f (MState (Some (last t)) [] [(1, t)])" for f
    by (rule header_hit[OF assms(1,2) dot])
  have nl: "\<forall>c \<in> set (''h3>'' @ t @ ''</h3>''). \<not> isLineTerminator c"
    using dot by (auto simp: isDot_def isLineTerminator_def code_def)
  have h2: "replaceAll (headerRegex 2) f ?H = ?H" for f
    using header_html[OF _ nl, of 2 f] by simp
  have h1: "replaceAll (headerRegex 1) f ?H = ?H" for f
    using header_html[OF _ nl, of 1 f] by simp
  have idp: "replaceAll h2IdRegex f ?H = ?H" for f
    using h2Id_other[OF _ _ nolt, of "CHR ''3''" f] by simp
  show ?thesis
    unfolding parseHeaders_def Let_def s6 s5 s4 hit grps_single h2 h1 idp ..
qed

lemma parseHeaders_h4:
  assumes "t \<noteq> []" and "\<not> isSpace (hd t)"
    and "\<forall>c \<in> set t. isDot c \<and> c \<noteq> CHR ''<'' \<and> c \<noteq> CHR ''>''"
  shows "parseHeaders (replicate 4 CHR ''#'' @ CHR '' '' # t) = ''<h4>'' @ t @ ''</h4>''"
proof -
  let ?s = "replicate 4 CHR ''#'' @ CHR '' '' # t"
  let ?H = "''<h4>'' @ t @ ''</h4>''"
  have dot: "\<forall>c \<in> set t. isDot c" using assms(3) by simp
  have nolt: "CHR ''<'' \<notin> set t" using assms(3) by auto
  have s6: "replaceAll (headerRegex 6) f ?s = ?s" for f
    by (rule header_skip) (simp, rule dot)
  have s5: "replaceAll (headerRegex 5) f ?s = ?s" for f
    by (rule header_skip) (simp, rule dot)
  have hit: "replaceAll (headerRegex 4) f ?s = f (MState (Some (last t)) [] [(1, t)])" for f
    by (rule header_hit[OF assms(1,2) dot])
  have nl: "\<forall>c \<in> set (''h4>'' @ t @ ''</h4>''). \<not> isLineTerminator c"
    using dot by (auto simp: isDot_def isLineTerminator_def code_def)
  have h3: "replaceAll (headerRegex 3) f ?H = ?H" for f
    using header_html[OF _ nl, of 3 f] by simp
  have h2: "replaceAll (headerRegex 2) f ?H = ?H" for f
    using header_html[OF _ nl, of 2 f] by simp
  have h1: "replaceAll (headerRegex 1) f ?H = ?H" for f
    using header_html[OF _ nl, of 1 f] by simp
  have idp: "replaceAll h2IdRegex f ?H = ?H" for f
    using h2Id_other[OF _ _ nolt, of "CHR ''4''" f] by simp
  show ?thesis
    unfolding parseHeaders_def Let_def s6 s5 hit grps_single h3 h2 h1 idp ..
qed

lemma parseHeaders_h5:
  assumes "t \<noteq> []" and "\<not> isSpace (hd t)"
    and "\<forall>c \<in> set t. isDot c \<and> c \<noteq> CHR ''<'' \<and> c \<noteq> CHR ''>''"
  shows "parseHeaders (replicate 5 CHR ''#'' @ CHR '' '' # t) = ''<h5>'' @ t @ ''</h5>''"
proof -
  let ?s = "replicate 5 CHR ''#'' @ CHR '' '' # t"
  let ?H = "''<h5>'' @ t @ ''</h5>''"
  have dot: "\<forall>c \<in> set t. isDot c" using assms(3) by simp
  have nolt: "CHR ''<'' \<notin> set t" using assms(3) by auto
  have s6: "replaceAll (headerRegex 6) f ?s = ?s" for f
    by (rule header_skip) (simp, rule dot)
  have hit: "replaceAll (headerRegex 5) f ?s = f (MState (Some (last t)) [] [(1, t)])" for f
    by (rule header_hit[OF assms(1,2) dot])
  have nl: "\<forall>c \<in> set (''h5>'' @ t @ ''</h5>''). \<not> isLineTerminator c"
    using dot by (auto simp: isDot_def isLineTerminator_def code_def)
  have h4: "replaceAll (headerRegex 4) f ?H = ?H" for f
    using header_html[OF _ nl, of 4 f] by simp
  have h3: "replaceAll (headerRegex 3) f ?H = ?H" for f
    using header_html[OF _ nl, of 3 f] by simp
  have h2: "replaceAll (headerRegex 2) f ?H = ?H" for f
    using header_html[OF _ nl, of 2 f] by simp
  have h1: "replaceAll (headerRegex 1) f ?H = ?H" for f
    using header_html[OF _ nl, of 1 f] by simp
  have idp: "replaceAll h2IdRegex f ?H = ?H" for f
    using h2Id_other[OF _ _ nolt, of "CHR ''5''" f] by simp
  show ?thesis
    unfolding parseHeaders_def Let_def s6 hit grps_single h4 h3 h2 h1 idp ..
qed

lemma parseHeaders_h6:
  assumes "t \<noteq> []" and "\<not> isSpace (hd t)"
    and "\<forall>c \<in> set t. isDot c \<and> c \<noteq> CHR ''<'' \<and> c \<noteq> CHR ''>''"
  shows "parseHeaders (replicate 6 CHR ''#'' @ CHR '' '' # t) = ''<h6>'' @ t @ ''</h6>''"
proof -
  let ?s = "replicate 6 CHR ''#'' @ CHR '' '' # t"
  let ?H = "''<h6>'' @ t @ ''</h6>''"
  have dot: "\<forall>c \<in> set t. isDot c" using assms(3) by simp
  have nolt: "CHR ''<'' \<notin> set t" using assms(3) by auto
  have hit: "replaceAll (headerRegex 6) f ?s = f (MState (Some (last t)) [] [(1, t)])" for f
    by (rule header_hit[OF assms(1,2) dot])
  have nl: "\<forall>c \<in> set (''h6>'' @ t @ ''</h6>''). \<not> isLineTerminator c"
    using dot by (auto simp: isDot_def isLineTerminator_def code_def)
  have h5: "replaceAll (headerRegex 5) f ?H = ?H" for f
    using header_html[OF _ nl, of 5 f] by simp
  have h4: "replaceAll (headerRegex 4) f ?H = ?H" for f
    using header_html[OF _ nl, of 4 f] by simp
  have h3: "replaceAll (headerRegex 3) f ?H = ?H" for f
    using header_html[OF _ nl, of 3 f] by simp
  have h2: "replaceAll (headerRegex 2) f ?H = ?H" for f
    using header_html[OF _ nl, of 2 f] by simp
  have h1: "replaceAll (headerRegex 1) f ?H = ?H" for f
    using header_html[OF _ nl, of 1 f] by simp
  have idp: "replaceAll h2IdRegex f ?H = ?H" for f
    using h2Id_other[OF _ _ nolt, of "CHR ''6''" f] by simp
  show ?thesis
    unfolding parseHeaders_def Let_def hit grps_single h5 h4 h3 h2 h1 idp ..
qed

subsection \<open>The later passes on a text without markup\<close>

lemma NL_lineTerminator: "isLineTerminator NL"
  by (simp add: isLineTerminator_def code_def)

lemma inert_D:
  assumes "inert s"
  shows "\<forall>c \<in> set s. \<not> (c = CHR ''*'')"
    "\<forall>c \<in> set s. \<not> (c = CHR ''_'')" "\<forall>c \<in> set s. \<not> (c = CHR ''!'')"
    "\<forall>c \<in> set s. \<not> (c = CHR ''['')" "\<forall>c \<in> set s. \<not> (c = CHR 0x60)"
    "\<forall>c \<in> set s. \<not> (c = NL)" "\<forall>c \<in> set s. \<not> isLineTerminator c"
  using assms NL_lineTerminator by (auto simp: inert_def)

lemma parseEmphasis_inert: "inert s \<Longrightarrow> parseEmphasis s = s"
proof -
  assume i: "inert s"
  have a: "replaceAll (emphRegex (CHR ''*'' # w)) f s = s" for w f
    unfolding replaceAll_def
    by (rule replace_requires_id[OF _ inert_D(1)[OF i]]) (simp add: emphRegex_def)
  have b: "replaceAll (emphRegex (CHR ''_'' # w)) f s = s" for w f
    unfolding replaceAll_def
    by (rule replace_requires_id[OF _ inert_D(2)[OF i]]) (simp add: emphRegex_def)
  show ?thesis by (simp add: parseEmphasis_def a b)
qed

lemma parseImages_inert: "inert s \<Longrightarrow> parseImages cfg s = s"
proof -
  assume i: "inert s"
  have a: "replaceAll captionedImageRegex f s = s" for f
    unfolding replaceAll_def
    by (rule replace_requires_id[OF _ inert_D(3)[OF i]]) (simp add: captionedImageRegex_def)
  have b: "replaceAll classedImageRegex f s = s" for f
    unfolding replaceAll_def
    by (rule replace_requires_id[OF _ inert_D(3)[OF i]]) (simp add: classedImageRegex_def)
  have c: "replaceAll plainImageRegex f s = s" for f
    unfolding replaceAll_def
    by (rule replace_requires_id[OF _ inert_D(3)[OF i]]) (simp add: plainImageRegex_def)
  show ?thesis
    by (simp add: parseImages_def parseCaptionedImages_def parseClassedImages_def
        parsePlainImages_def a b c)
qed

lemma parseLinks_inert: "inert s \<Longrightarrow> parseLinks s = s"
  unfolding parseLinks_def replaceAll_def
  by (rule replace_requires_id[OF _ inert_D(4)]) (simp_all add: linkRegex_def)

lemma parseCode_inert: "inert s \<Longrightarrow> parseCode s = s"
proof -
  assume i: "inert s"
  have a: "replaceAll inlineCodeRegex f s = s" for f
    unfolding replaceAll_def
    by (rule replace_requires_id[OF _ inert_D(5)[OF i]]) (simp add: inlineCodeRegex_def)
  have b: "replaceAll codeBlockRegex f s = s" for f
    unfolding replaceAll_def
    by (rule replace_requires_id[OF _ inert_D(5)[OF i]])
       (simp add: codeBlockRegex_def numeral_3_eq_3)
  show ?thesis by (simp add: parseCode_def a b)
qed

lemma parseBlockquotes_inert:
  "inert (CHR ''<'' # s) \<Longrightarrow> parseBlockquotes (CHR ''<'' # s) = CHR ''<'' # s"
proof -
  assume i: "inert (CHR ''<'' # s)"
  let ?r = "Seqs [Lit ''&gt;'', Plus (Cls isSpace), Grp 1 (Plus (Cls isDot)), LineEnd]"
  have e: "exec_at (Seq LineStart ?r) None (CHR ''<'' # s) = None"
    by (simp add: exec_at_def)
  have a: "replaceAll blockquoteRegex f (CHR ''<'' # s) = CHR ''<'' # s" for f
    using replace_anchored_id[OF inert_D(7)[OF i] e, of f]
    by (simp add: replaceAll_def blockquoteRegex_def)
  have b: "replaceAll (Lit (''</blockquote>'' @ [NL] @ ''<blockquote>'')) f (CHR ''<'' # s) =
             CHR ''<'' # s" for f
    unfolding replaceAll_def
    by (rule replace_requires_id[OF _ inert_D(6)[OF i]]) simp
  show ?thesis unfolding parseBlockquotes_def Let_def a b ..
qed

lemma parseRules_inert: "inert (CHR ''<'' # s) \<Longrightarrow> parseRules (CHR ''<'' # s) = CHR ''<'' # s"
proof -
  assume i: "inert (CHR ''<'' # s)"
  let ?r = "Seq (Lit ''--'') (Seq (Plus (Chr CHR ''-'')) LineEnd)"
  have e: "exec_at (Seq LineStart ?r) None (CHR ''<'' # s) = None"
    by (simp add: exec_at_def)
  have a: "replaceAll (Seqs [LineStart, Lit ''--'', Plus (Chr CHR ''-''), LineEnd]) f (CHR ''<'' # s) =
             CHR ''<'' # s" for f
    using replace_anchored_id[OF inert_D(7)[OF i] e, of f]
    by (simp add: replaceAll_def)
  have b: "replaceAll (Seqs [LineStart, Lit ''**'', Plus (Chr CHR ''*''), LineEnd]) f (CHR ''<'' # s) =
             CHR ''<'' # s" for f
    unfolding replaceAll_def
    by (rule replace_requires_id[OF _ inert_D(1)[OF i]]) simp
  show ?thesis unfolding parseRules_def Let_def a b ..
qed

lemma split_on_absent: "d \<notin> set s \<Longrightarrow> split_on d s = [s]"
  by (induction s) auto

lemma search_InputStart: "search_from (Seq InputStart r) (Some c) s = None"
  by (induction s arbitrary: c) (simp_all add: exec_at_def)

lemma lt_not_digit: "\<not> isDigit CHR ''<''"
  by (simp add: isDigit_def code_def)

lemma parseLists_tag:
  assumes "NL \<notin> set s"
  shows "parseLists (CHR ''<'' # s) = CHR ''<'' # s"
proof -
  have u: "match_re ulRegex (CHR ''<'' # s) = None"
    by (simp add: match_re_def ulRegex_def exec_at_def search_InputStart)
  have o: "match_re olRegex (CHR ''<'' # s) = None"
    by (simp add: match_re_def olRegex_def exec_at_def search_InputStart Plus_def lt_not_digit)
  have sp: "split_on NL (CHR ''<'' # s) = [CHR ''<'' # s]"
    using assms by (intro split_on_absent) simp
  show ?thesis
    unfolding parseLists_def sp
    by (simp add: parseListLines_def listLoop_def listStep_def listFinish_def u o)
qed

lemma includes_blank: "includes_str s [NL, NL] \<Longrightarrow> NL \<in> set s"
  by (induction s) (auto simp: startsWith_def)

lemma noBlankLine_absent: "NL \<notin> set s \<Longrightarrow> noBlankLine s"
  using includes_blank by (auto simp: noBlankLine_def)

lemma trim_ends:
  assumes "s \<noteq> []" and "\<not> isSpace (hd s)" and "\<not> isSpace (last s)"
  shows "trim s = s"
proof -
  have 1: "dropWhile isSpace s = s"
    using assms(1,2) by (cases s) auto
  have "rev s \<noteq> []" and "\<not> isSpace (hd (rev s))"
    using assms(1,3) by (simp_all add: hd_rev)
  then have 2: "dropWhile isSpace (rev s) = rev s"
    by (cases "rev s") auto
  show ?thesis by (simp add: trim_def 1 2)
qed

lemma tag_not_space: "\<not> isSpace CHR ''<''" "\<not> isSpace CHR ''>''"
  by (simp_all add: isSpace_def code_def)

lemma parseParagraphs_heading:
  assumes "NL \<notin> set s" and "startsWithBlockTag (CHR ''<'' # s @ ''>'')"
  shows "parseParagraphs (CHR ''<'' # s @ ''>'') = CHR ''<'' # s @ ''>''"
proof -
  have t: "trim (CHR ''<'' # s @ ''>'') = CHR ''<'' # s @ ''>''"
    by (rule trim_ends) (simp_all add: tag_not_space)
  have n: "noBlankLine (CHR ''<'' # s @ ''>'')"
    using assms(1) by (intro noBlankLine_absent) simp
  show ?thesis using parseParagraphs_block[OF n] assms(2) t by simp
qed

lemma escapeHtml_plain:
  assumes "\<forall>c \<in> set s. c \<noteq> CHR ''&'' \<and> c \<noteq> CHR ''<'' \<and> c \<noteq> CHR ''>''"
  shows "escapeHtml s = s"
proof -
  have a: "replaceAll (Chr CHR ''&'') f s = s" for f
    unfolding replaceAll_def
    by (rule replace_requires_id[where P = "\<lambda>c. c = CHR ''&''"]) (use assms in simp_all)
  have b: "replaceAll (Chr CHR ''<'') f s = s" for f
    unfolding replaceAll_def
    by (rule replace_requires_id[where P = "\<lambda>c. c = CHR ''<''"]) (use assms in simp_all)
  have c: "replaceAll (Chr CHR ''>'') f s = s" for f
    unfolding replaceAll_def
    by (rule replace_requires_id[where P = "\<lambda>c. c = CHR ''>''"]) (use assms in simp_all)
  show ?thesis unfolding escapeHtml_def a b c ..
qed

lemma canonicalize_NL: "canonicalize x = canonicalize NL \<longleftrightarrow> x = NL"
proof
  assume a: "canonicalize x = canonicalize NL"
  have n: "canonicalize NL = NL"
    by (simp add: canonicalize_def isLower_def code_def)
  show "x = NL"
  proof (cases "isLower x")
    case True
    then have "code x - 32 < 256"
      unfolding isLower_def by linarith
    then have "code (canonicalize x) = code x - 32"
      using True by (simp add: canonicalize_def code_def)
    then have "code x - 32 = 10" using a n by (simp add: code_def)
    moreover have "97 \<le> code x" using True by (simp add: isLower_def)
    ultimately have False by linarith
    then show ?thesis ..
  next
    case False
    then show ?thesis using a n by (simp add: canonicalize_def)
  qed
qed simp

lemma parseCallouts_line:
  assumes "NL \<notin> set s"
  shows "parseCallouts s = s"
proof -
  have n: "\<forall>c \<in> set s. \<not> (c = NL)" using assms by auto
  have a: "replaceAll (calloutRegex type) f s = s" for type f
    unfolding replaceAll_def
    by (rule replace_requires_id[OF _ n])
       (simp add: calloutRegex_def canonicalize_NL del: LitI.simps)
  show ?thesis by (simp add: parseCallouts_def calloutTypes_def a)
qed

subsection \<open>The characters of a slug\<close>

lemma code_inj: "code a = code b \<longleftrightarrow> a = b"
  by (simp add: code_def)

lemma lowerChar_code:
  "code (lowerChar c) =
     (if isUpper c \<or> (192 \<le> code c \<and> code c \<le> 222 \<and> code c \<noteq> 215)
      then code c + 32 else code c)"
proof (cases "isUpper c \<or> (192 \<le> code c \<and> code c \<le> 222 \<and> code c \<noteq> 215)")
  case False
  then have "lowerChar c = c" unfolding lowerChar_def by (rule if_not_P)
  then show ?thesis using False by (simp only: if_False)
next
  case True
  then have "code c + 32 < 256" unfolding isUpper_def by linarith
  then have "code (char_of (code c + 32)) = code c + 32"
    by (simp add: code_def)
  moreover have "lowerChar c = char_of (code c + 32)"
    unfolding lowerChar_def using True by (rule if_P)
  ultimately show ?thesis using True by (simp only: if_True)
qed

lemma lowerChar_not_upper: "\<not> isUpper (lowerChar c)"
  unfolding isUpper_def lowerChar_code by (simp add: isUpper_def)

lemma lowerChar_underscore:
  assumes "lowerChar c = CHR ''_''"
  shows "c = CHR ''_''"
proof -
  have u: "code CHR ''_'' = 95" by (simp add: code_def)
  have "code (lowerChar c) = 95" using assms u by simp
  then have "code c = 95"
    unfolding lowerChar_code isUpper_def by (simp split: if_splits)
  then show ?thesis using u code_inj by metis
qed

lemma isWord_inert:
  assumes "isWord c" and "c \<noteq> CHR ''_''"
  shows "c \<notin> set [CHR ''*'', CHR ''_'', CHR ''!'', CHR ''['', CHR 0x60]
         \<and> \<not> isLineTerminator c \<and> \<not> isSpace c"
proof -
  have "48 \<le> code c \<and> code c \<le> 57 \<or> 65 \<le> code c \<and> code c \<le> 90
        \<or> 97 \<le> code c \<and> code c \<le> 122 \<or> code c = 95"
    using assms(1) by (auto simp: isWord_def isUpper_def isLower_def isDigit_def)
  moreover have "code c \<noteq> 95"
    using assms(2) code_inj[of c "CHR ''_''"] by (simp add: code_def)
  ultimately have r: "48 \<le> code c \<and> code c \<le> 57 \<or> 65 \<le> code c \<and> code c \<le> 90
        \<or> 97 \<le> code c \<and> code c \<le> 122"
    by blast
  have "code c \<noteq> 38 \<and> code c \<noteq> 42 \<and> code c \<noteq> 33 \<and> code c \<noteq> 91 \<and> code c \<noteq> 96
        \<and> code c \<noteq> 10 \<and> code c \<noteq> 13 \<and> code c \<noteq> 9 \<and> code c \<noteq> 11 \<and> code c \<noteq> 12
        \<and> code c \<noteq> 32 \<and> code c \<noteq> 160"
    using r by linarith
  then show ?thesis
    using assms(2) by (auto simp: isLineTerminator_def isSpace_def code_def)
qed

lemma slugify_set:
  "set (slugify t) \<subseteq> insert CHR ''-'' {c. isWord c \<and> c \<in> lowerChar ` set t}"
proof -
  let ?a = "filter slugKeeps (map lowerChar t)"
  let ?b = "collapseRuns isSpace CHR ''-'' ?a"
  have "set (slugify t) \<subseteq> insert CHR ''-'' {c \<in> set ?b. c \<noteq> CHR ''-''}"
    unfolding slugify_eq using collapseRuns_set[of "\<lambda>c. c = CHR ''-''" "CHR ''-''" ?b] by simp
  moreover have "set ?b \<subseteq> insert CHR ''-'' {c \<in> set ?a. \<not> isSpace c}"
    by (rule collapseRuns_set)
  moreover have "{c \<in> set ?a. \<not> isSpace c} \<subseteq> insert CHR ''-'' {c. isWord c \<and> c \<in> lowerChar ` set t}"
    by (auto simp: slugKeeps_def)
  ultimately show ?thesis by blast
qed

lemma hyphen_inert:
  "CHR ''-'' \<notin> set [CHR ''*'', CHR ''_'', CHR ''!'', CHR ''['', CHR 0x60]
   \<and> \<not> isLineTerminator CHR ''-'' \<and> \<not> isSpace CHR ''-'' \<and> \<not> isUpper CHR ''-''"
  by (simp add: isLineTerminator_def isSpace_def isUpper_def code_def)

lemma slugify_lower: "\<forall>c \<in> set (slugify t). \<not> isUpper c \<and> \<not> isSpace c"
proof
  fix c assume "c \<in> set (slugify t)"
  then consider "c = CHR ''-''" | c0 where "isWord c" "c = lowerChar c0"
    using slugify_set[of t] by auto
  then show "\<not> isUpper c \<and> \<not> isSpace c"
  proof cases
    case 1
    then show ?thesis using hyphen_inert by simp
  next
    case 2
    have "\<not> isSpace c"
      using 2(1) by (auto simp: isWord_def isUpper_def isLower_def isDigit_def isSpace_def)
    then show ?thesis using 2(2) lowerChar_not_upper by simp
  qed
qed

lemma slugify_inert:
  assumes "CHR ''_'' \<notin> set t"
  shows "inert (slugify t)"
  unfolding inert_def
proof
  fix c assume "c \<in> set (slugify t)"
  then consider "c = CHR ''-''" | c0 where "isWord c" "c = lowerChar c0" "c0 \<in> set t"
    using slugify_set[of t] by auto
  then show "c \<notin> set [CHR ''*'', CHR ''_'', CHR ''!'', CHR ''['', CHR 0x60]
             \<and> \<not> isLineTerminator c"
  proof cases
    case 1
    then show ?thesis using hyphen_inert by simp
  next
    case 2
    have "c \<noteq> CHR ''_''" using 2(2,3) assms lowerChar_underscore by metis
    then show ?thesis using isWord_inert[OF 2(1)] by simp
  qed
qed

subsection \<open>The whole transformation on one heading line\<close>

lemma later_passes:
  assumes "inert (CHR ''<'' # s @ ''>'')" and "startsWithBlockTag (CHR ''<'' # s @ ''>'')"
  shows "parseParagraphs (parseLists (parseRules (parseBlockquotes (parseCode (parseLinks
           (parseImages cfg (parseEmphasis (CHR ''<'' # s @ ''>'')))))))) = CHR ''<'' # s @ ''>''"
proof -
  have n: "NL \<notin> set (s @ ''>'')"
    using inert_D(6)[OF assms(1)] by auto
  then have n': "NL \<notin> set s"
    by simp
  have l: "parseLists (CHR ''<'' # s @ ''>'') = CHR ''<'' # s @ ''>''"
    by (rule parseLists_tag[OF n])
  have r: "parseRules (CHR ''<'' # s @ ''>'') = CHR ''<'' # s @ ''>''"
    by (rule parseRules_inert[OF assms(1)])
  show ?thesis
    unfolding parseEmphasis_inert[OF assms(1)] parseImages_inert[OF assms(1)]
      parseLinks_inert[OF assms(1)] parseCode_inert[OF assms(1)]
      parseBlockquotes_inert[OF assms(1)] r l
    by (rule parseParagraphs_heading[OF n' assms(2)])
qed

subsection \<open>Greedy runs and the captioned image pattern\<close>

lemma rx_Star_greedy2:
  assumes "\<forall>c \<in> set u. P c" and "P x" and "v = [] \<or> \<not> P (hd v)"
  shows "\<exists>tl. rx (Star (Cls P)) (MState p (u @ x # v) g) =
           MState (Some x) v g # MState (if u = [] then p else Some (last u)) (x # v) g # tl"
  using assms(1)
proof (induction u arbitrary: p)
  case Nil
  have "rx (Star (Cls P)) (MState (Some x) v g) = [MState (Some x) v g]"
    using assms(3) by (subst rx.simps(7)) (cases v; simp)
  then show ?case using assms(2) by (subst rx.simps(7)) simp
next
  case (Cons c u)
  then have Pc: "P c" and Pu: "\<forall>c \<in> set u. P c" by simp_all
  from Cons.IH[OF Pu, of "Some c"] obtain tl where
    "rx (Star (Cls P)) (MState (Some c) (u @ x # v) g) =
       MState (Some x) v g # MState (if u = [] then Some c else Some (last u)) (x # v) g # tl"
    by blast
  then show ?case using Pc by (subst rx.simps(7)) simp
qed

lemma rx_Plus_greedy2:
  assumes "u \<noteq> []" and "\<forall>c \<in> set u. P c" and "P x" and "v = [] \<or> \<not> P (hd v)"
  shows "\<exists>tl. rx (Plus (Cls P)) (MState p (u @ x # v) g) =
           MState (Some x) v g # MState (Some (last u)) (x # v) g # tl"
proof -
  from assms(1) obtain c u' where u: "u = c # u'" by (cases u) auto
  then have Pc: "P c" and Pu: "\<forall>c \<in> set u'. P c" using assms(2) by simp_all
  from rx_Star_greedy2[OF Pu assms(3,4), of "Some c" g] obtain tl where
    "rx (Star (Cls P)) (MState (Some c) (u' @ x # v) g) =
       MState (Some x) v g # MState (if u' = [] then Some c else Some (last u')) (x # v) g # tl"
    by blast
  moreover have "(if u' = [] then Some c else Some (last u')) = Some (last u)"
    using u by simp
  ultimately show ?thesis using Pc u by (simp add: Plus_def)
qed

lemma rx_Star_upto:
  assumes "\<forall>c \<in> set u. P c" and "\<not> P x"
  shows "\<exists>p' tl. rx (Star (Cls P)) (MState p (u @ x # v) g) = MState p' (x # v) g # tl"
proof -
  have "dropWhile P (u @ x # v) = x # v"
    using assms by (simp add: dropWhile_append3)
  then show ?thesis using rx_Star_char_hd[OF charRe_Cls, of P p "u @ x # v" g] by auto
qed

lemma rx_Plus_upto:
  assumes "u \<noteq> []" and "\<forall>c \<in> set u. P c" and "\<not> P x"
  shows "\<exists>p' tl. rx (Plus (Cls P)) (MState p (u @ x # v) g) = MState p' (x # v) g # tl"
proof -
  from assms(1) obtain c u' where u: "u = c # u'" by (cases u) auto
  then have Pc: "P c" and Pu: "\<forall>c \<in> set u'. P c" using assms(2) by simp_all
  from rx_Star_upto[OF Pu assms(3), of "Some c" v g] obtain p' tl where
    "rx (Star (Cls P)) (MState (Some c) (u' @ x # v) g) = MState p' (x # v) g # tl"
    by blast
  then show ?thesis using Pc u by (simp add: Plus_def)
qed

lemma DQ_not_space: "\<not> isSpace DQ"
  by (simp add: isSpace_def code_def)

lemma captioned_exec:
  assumes "CHR '']'' \<notin> set alt"
    and "src \<noteq> []" and "\<forall>c \<in> set src. c \<noteq> CHR '')'' \<and> c \<noteq> DQ"
    and "caption \<noteq> []" and "DQ \<notin> set caption"
  shows "\<exists>ws. rx captionedImageRegex
            (MState p (''!['' @ alt @ '']('' @ src @ CHR '' '' # DQ # caption @ DQ # CHR '')'' # rest0) []) =
          MState (Some CHR '')'') rest0 [(3, caption), (2, src), (1, alt)] # ws"
proof -
  let ?nb = "Cls (\<lambda>c. c \<noteq> CHR '']'')"
  let ?npq = "Cls (\<lambda>c. c \<noteq> CHR '')'' \<and> c \<noteq> DQ)"
  let ?nq = "Cls (\<lambda>c. c \<noteq> DQ)"
  let ?R8 = "Seq (Chr DQ) (Chr CHR '')'')"
  let ?R7 = "Seq (Grp 3 (Plus ?nq)) ?R8"
  let ?R6 = "Seq (Chr DQ) ?R7"
  let ?R5 = "Seq (Plus (Cls isSpace)) ?R6"
  let ?R4 = "Seq (Grp 2 (Plus ?npq)) ?R5"
  let ?R3 = "Seq (Lit '']('') ?R4"
  let ?R2 = "Seq (Grp 1 (Star ?nb)) ?R3"
  let ?t7 = "caption @ DQ # CHR '')'' # rest0"
  let ?t5 = "CHR '' '' # DQ # ?t7"
  let ?t4 = "src @ ?t5"
  let ?t2 = "alt @ CHR '']'' # CHR ''('' # ?t4"
  have re: "captionedImageRegex = Seq (Lit ''!['') ?R2"
    by (simp add: captionedImageRegex_def del: Lit.simps)
  \<comment> \<open>the caption and the closing parenthesis\<close>
  have r7: "\<exists>ws. rx ?R7 (MState q ?t7 g) = MState (Some CHR '')'') rest0 ((3, caption) # g) # ws"
    for q g
  proof -
    obtain p' tl where pl: "rx (Plus ?nq) (MState q ?t7 g) = MState p' (DQ # CHR '')'' # rest0) g # tl"
      using rx_Plus_upto[OF assms(4), of "\<lambda>c. c \<noteq> DQ" DQ q "CHR '')'' # rest0" g] assms(5)
      by auto
    have g: "rx (Grp 3 (Plus ?nq)) (MState q ?t7 g) =
        [] @ MState p' (DQ # CHR '')'' # rest0) ((3, caption) # g) #
          map (\<lambda>st'. MState (prev st') (rest st')
                 ((3, take (length ?t7 - length (rest st')) ?t7) # caps st')) tl"
      by (simp add: pl)
    have e: "rx ?R8 (MState p' (DQ # CHR '')'' # rest0) ((3, caption) # g)) =
        MState (Some CHR '')'') rest0 ((3, caption) # g) # []"
      by simp
    from rx_Seq_first[OF g _ e] show ?thesis by auto
  qed
  \<comment> \<open>whitespace and the opening quote\<close>
  have r5: "\<exists>ws. rx ?R5 (MState q ?t5 g) = MState (Some CHR '')'') rest0 ((3, caption) # g) # ws"
    for q g
  proof -
    have "rx (Plus (Cls isSpace)) (MState q ?t5 g) = [MState (Some CHR '' '') (DQ # ?t7) g]"
      using rx_Plus_one[of isSpace "CHR '' ''" "DQ # ?t7"] space_isSpace DQ_not_space by simp
    moreover obtain ws where
      "rx ?R7 (MState (Some DQ) ?t7 g) = MState (Some CHR '')'') rest0 ((3, caption) # g) # ws"
      using r7 by blast
    ultimately have "rx ?R5 (MState q ?t5 g) = MState (Some CHR '')'') rest0 ((3, caption) # g) # ws"
      by simp
    then show ?thesis by blast
  qed
  have f5: "rx ?R5 (MState q (DQ # ?t7) g) = []" for q g
    using DQ_not_space by (simp add: Plus_def)
  \<comment> \<open>the source path: the longest run takes the blank too and fails, the next one matches\<close>
  have r4: "\<exists>ws. rx ?R4 (MState q ?t4 g) =
              MState (Some CHR '')'') rest0 ((3, caption) # (2, src) # g) # ws" for q g
  proof -
    obtain tl where pl: "rx (Plus ?npq) (MState q (src @ CHR '' '' # DQ # ?t7) g) =
        MState (Some CHR '' '') (DQ # ?t7) g # MState (Some (last src)) (CHR '' '' # DQ # ?t7) g # tl"
      using rx_Plus_greedy2[OF assms(2), of "\<lambda>c. c \<noteq> CHR '')'' \<and> c \<noteq> DQ" "CHR '' ''"
          "DQ # ?t7" q g] assms(3)
      by auto
    let ?F = "\<lambda>st'. MState (prev st') (rest st')
                 ((2, take (length ?t4 - length (rest st')) ?t4) # caps st')"
    have g: "rx (Grp 2 (Plus ?npq)) (MState q ?t4 g) =
        [MState (Some CHR '' '') (DQ # ?t7) ((2, src @ '' '') # g)] @
        MState (Some (last src)) ?t5 ((2, src) # g) # map ?F tl"
      by (simp add: pl)
    have f: "\<forall>x' \<in> set [MState (Some CHR '' '') (DQ # ?t7) ((2, src @ '' '') # g)]. rx ?R5 x' = []"
      using f5 by simp
    obtain ws where e: "rx ?R5 (MState (Some (last src)) ?t5 ((2, src) # g)) =
        MState (Some CHR '')'') rest0 ((3, caption) # (2, src) # g) # ws"
      using r5 by blast
    from rx_Seq_first[OF g f e] show ?thesis by blast
  qed
  \<comment> \<open>the alternative text and the literals around it\<close>
  have r3: "\<exists>ws. rx ?R3 (MState q (CHR '']'' # CHR ''('' # ?t4) g) =
              MState (Some CHR '')'') rest0 ((3, caption) # (2, src) # g) # ws" for q g
  proof -
    have "rx (Lit '']('') (MState q ('']('' @ ?t4) g) = [MState (Some CHR ''('') ?t4 g]"
      using rx_Lit_prefix[of "''](''" q ?t4 g] by simp
    moreover obtain ws where "rx ?R4 (MState (Some CHR ''('') ?t4 g) =
        MState (Some CHR '')'') rest0 ((3, caption) # (2, src) # g) # ws"
      using r4 by blast
    ultimately show ?thesis by (simp del: Lit.simps)
  qed
  have r2: "\<exists>ws. rx ?R2 (MState q ?t2 g) =
              MState (Some CHR '')'') rest0 ((3, caption) # (2, src) # (1, alt) # g) # ws" for q g
  proof -
    obtain p' tl where st: "rx (Star ?nb) (MState q ?t2 g) =
        MState p' (CHR '']'' # CHR ''('' # ?t4) g # tl"
      using rx_Star_upto[of alt "\<lambda>c. c \<noteq> CHR '']''" "CHR '']''" q "CHR ''('' # ?t4" g]
        assms(1) by auto
    let ?F = "\<lambda>st'. MState (prev st') (rest st')
                 ((1, take (length ?t2 - length (rest st')) ?t2) # caps st')"
    have g: "rx (Grp 1 (Star ?nb)) (MState q ?t2 g) =
        [] @ MState p' (CHR '']'' # CHR ''('' # ?t4) ((1, alt) # g) # map ?F tl"
      by (simp add: st)
    obtain ws where e: "rx ?R3 (MState p' (CHR '']'' # CHR ''('' # ?t4) ((1, alt) # g)) =
        MState (Some CHR '')'') rest0 ((3, caption) # (2, src) # (1, alt) # g) # ws"
      using r3 by blast
    from rx_Seq_first[OF g _ e] show ?thesis by auto
  qed
  have "rx (Lit ''!['') (MState p (''!['' @ ?t2) []) = [MState (Some CHR ''['') ?t2 []]"
    using rx_Lit_prefix[of "''!['' " p ?t2 "[]"] by simp
  moreover obtain ws where "rx ?R2 (MState (Some CHR ''['') ?t2 []) =
      MState (Some CHR '')'') rest0 [(3, caption), (2, src), (1, alt)] # ws"
    using r2 by blast
  ultimately have "rx captionedImageRegex (MState p (''!['' @ ?t2) []) =
      MState (Some CHR '')'') rest0 [(3, caption), (2, src), (1, alt)] # ws"
    unfolding re by (simp del: Lit.simps)
  then show ?thesis by auto
qed

lemma image_requires:
  "requires (\<lambda>c. c = CHR ''!'') captionedImageRegex"
  "requires (\<lambda>c. c = CHR ''!'') classedImageRegex"
  "requires (\<lambda>c. c = CHR ''!'') plainImageRegex"
  by (simp_all add: captionedImageRegex_def classedImageRegex_def plainImageRegex_def)

lemma grps_three:
  "grps (MState p r [(3, c), (2, b), (1, a)]) 1 = a"
  "grps (MState p r [(3, c), (2, b), (1, a)]) 2 = b"
  "grps (MState p r [(3, c), (2, b), (1, a)]) 3 = c"
  by (simp_all add: grps_def grp_def)

lemma parseCaptionedImages_combined:
  assumes "CHR '']'' \<notin> set alt"
    and "src \<noteq> []" and "\<forall>c \<in> set src. c \<noteq> CHR '')'' \<and> c \<noteq> DQ"
    and "caption \<noteq> []" and "DQ \<notin> set caption"
    and "CHR ''!'' \<notin> set rest0"
  shows "parseCaptionedImages cfg
           (''!['' @ alt @ '']('' @ src @ CHR '' '' # DQ # caption @ DQ # CHR '')'' # rest0) =
         captionedImage cfg alt src caption @ rest0"
proof -
  define s where "s = ''!['' @ alt @ '']('' @ src @ CHR '' '' # DQ # caption @ DQ # CHR '')'' # rest0"
  let ?f = "\<lambda>m. captionedImage cfg (grps m 1) (grps m 2) (grps m 3)"
  let ?final = "MState (Some CHR '')'') rest0 [(3, caption), (2, src), (1, alt)]"
  obtain ws where "rx captionedImageRegex (MState None s []) = ?final # ws"
    unfolding s_def using captioned_exec[OF assms(1-5)] by blast
  then have e: "exec_at captionedImageRegex None s = Some ?final"
    by (simp add: exec_at_def)
  have l: "length rest0 < length s"
    by (simp add: s_def)
  have n: "\<forall>c \<in> set rest0. \<not> (c = CHR ''!'')"
    using assms(6) by auto
  have r: "replace_g captionedImageRegex ?f (Some CHR '')'') rest0 = rest0"
    by (rule replace_requires_id[OF image_requires(1) n])
  have "replace_g captionedImageRegex ?f None s = captionedImage cfg alt src caption @ rest0"
    by (subst replace_g.simps) (simp only: e option.case mstate.sel l if_True r grps_three)
  then show ?thesis by (simp add: parseCaptionedImages_def replaceAll_def s_def)
qed

lemma parseImages_combined:
  assumes "CHR '']'' \<notin> set alt"
    and "src \<noteq> []" and "\<forall>c \<in> set src. c \<noteq> CHR '')'' \<and> c \<noteq> DQ"
    and "caption \<noteq> []" and "DQ \<notin> set caption"
    and "CHR ''!'' \<notin> set (alt @ resolveImagePath cfg src @ caption @ cls)"
  shows "parseImages cfg
           (''!['' @ alt @ '']('' @ src @ '' '' @ [DQ] @ caption @ [DQ] @ ''){.'' @ cls @ ''}'') =
         captionedImage cfg alt src caption @ ''{.'' @ cls @ ''}''"
proof -
  let ?rest0 = "''{.'' @ cls @ ''}''"
  let ?out = "captionedImage cfg alt src caption @ ?rest0"
  have n0: "CHR ''!'' \<notin> set ?rest0"
    using assms(6) by simp
  have 1: "parseCaptionedImages cfg
      (''!['' @ alt @ '']('' @ src @ '' '' @ [DQ] @ caption @ [DQ] @ ''){.'' @ cls @ ''}'') = ?out"
    using parseCaptionedImages_combined[OF assms(1-5) n0, of cfg] by simp
  have n: "\<forall>c \<in> set ?out. \<not> (c = CHR ''!'')"
    using assms(6) by (auto simp: captionedImage_def Let_def)
  have 2: "parseClassedImages cfg ?out = ?out"
    unfolding parseClassedImages_def replaceAll_def
    by (rule replace_requires_id[OF image_requires(2) n])
  have 3: "parsePlainImages cfg ?out = ?out"
    unfolding parsePlainImages_def replaceAll_def
    by (rule replace_requires_id[OF image_requires(3) n])
  show ?thesis unfolding parseImages_def 1 2 3 ..
qed

subsection \<open>Escaping, character by character\<close>

lemma replace_Chr_map:
  "replace_g (Chr c0) (\<lambda>_. w) p s = concat (map (\<lambda>c. if c = c0 then w else [c]) s)"
proof (induction s arbitrary: p)
  case Nil
  show ?case by (subst replace_g.simps) (simp add: exec_at_def)
next
  case (Cons c s)
  show ?case by (subst replace_g.simps) (simp add: exec_at_def Cons)
qed

lemma escapeHtml_map: "escapeHtml s = concat (map escapeChar s)"
  unfolding escapeHtml_def replaceAll_def replace_Chr_map
  by (induction s) (simp_all add: escapeChar_def)

lemma escapeChar_set:
  "x \<in> set (escapeChar c) \<Longrightarrow>
   x \<noteq> CHR ''<'' \<and> x \<noteq> CHR ''>'' \<and> (x = c \<or> x \<in> set ''&amp;lt;gt;'')"
  by (auto simp: escapeChar_def split: if_splits)

lemma escapeHtml_set:
  assumes "x \<in> set (escapeHtml s)"
  shows "x \<noteq> CHR ''<'' \<and> x \<noteq> CHR ''>'' \<and> (x \<in> set s \<or> x \<in> set ''&amp;lt;gt;'')"
proof -
  from assms obtain c where "c \<in> set s" and "x \<in> set (escapeChar c)"
    unfolding escapeHtml_map by auto
  then show ?thesis using escapeChar_set[of x c] by auto
qed

lemma amp_not_space: "\<not> isSpace CHR ''&''"
  by (simp add: isSpace_def code_def)

lemma escapeHtml_hd:
  assumes "s \<noteq> []" and "\<not> isSpace (hd s)"
  shows "escapeHtml s \<noteq> [] \<and> \<not> isSpace (hd (escapeHtml s))"
proof -
  from assms(1) obtain c cs where s: "s = c # cs" by (cases s) auto
  have e: "escapeHtml s = escapeChar c @ escapeHtml cs"
    unfolding s escapeHtml_map by simp
  have "escapeChar c \<noteq> [] \<and> \<not> isSpace (hd (escapeChar c))"
    using assms(2) amp_not_space unfolding s by (simp add: escapeChar_def)
  then show ?thesis unfolding e by simp
qed

lemma escaped_chars:
  assumes "\<forall>c \<in> set t. \<not> isLineTerminator c \<and> c \<noteq> CHR ''_''" and "x \<in> set (escapeHtml t)"
  shows "isDot x \<and> x \<noteq> CHR ''<'' \<and> x \<noteq> CHR ''>'' \<and> x \<noteq> CHR ''_'' \<and> x \<noteq> NL"
proof -
  have l: "\<forall>y \<in> set ''&amp;lt;gt;''. \<not> isLineTerminator y \<and> y \<noteq> CHR ''_''"
    by (simp add: isLineTerminator_def code_def)
  from escapeHtml_set[OF assms(2)] have a: "x \<noteq> CHR ''<''" "x \<noteq> CHR ''>''"
    and "x \<in> set t \<or> x \<in> set ''&amp;lt;gt;''"
    by blast+
  then have "\<not> isLineTerminator x \<and> x \<noteq> CHR ''_''"
    using assms(1) l by blast
  then show ?thesis using a NL_lineTerminator by (auto simp: isDot_def)
qed

subsection \<open>Passes that leave the start of the text alone\<close>

lemma replace_g_skip_gen:
  "(\<And>k. k < length u \<Longrightarrow> exec_at r (prevAt p u k) (drop k u @ v) = None) \<Longrightarrow>
   replace_g r f p (u @ v) = u @ replace_g r f (if u = [] then p else Some (last u)) v"
proof (induction u arbitrary: p)
  case Nil
  show ?case by simp
next
  case (Cons c u)
  have 0: "exec_at r p (c # u @ v) = None"
    using Cons.prems[of 0] by (simp add: prevAt_def)
  have "replace_g r f (Some c) (u @ v) =
          u @ replace_g r f (if u = [] then Some c else Some (last u)) v"
  proof (rule Cons.IH)
    fix k assume "k < length u"
    then show "exec_at r (prevAt (Some c) u k) (drop k u @ v) = None"
      using Cons.prems[of "Suc k"] by (cases k) (simp_all add: prevAt_def)
  qed
  then show ?case using replace_g_step[OF 0] by simp
qed

lemma replace_anchored_prefix:
  assumes "firstChr c0 r" and "u \<noteq> []" and "hd u \<noteq> c0" and "\<forall>c \<in> set u. \<not> isLineTerminator c"
  shows "prefix u (replaceAll (Seq LineStart r) f (u @ v))"
proof -
  have "replace_g (Seq LineStart r) f None (u @ v) =
          u @ replace_g (Seq LineStart r) f (if u = [] then None else Some (last u)) v"
  proof (rule replace_g_skip_gen)
    fix k assume k: "k < length u"
    show "exec_at (Seq LineStart r) (prevAt None u k) (drop k u @ v) = None"
    proof (cases k)
      case 0
      have "rx r (MState None (u @ v) []) = []"
        by (rule firstChr_none[OF assms(1)]) (use assms(2,3) in simp)
      then show ?thesis using 0 by (simp add: prevAt_def exec_at_def)
    next
      case (Suc j)
      then have "j < length u" using k by simp
      then have "\<not> isLineTerminator (u ! j)" using assms(4) by simp
      then show ?thesis using Suc by (simp add: prevAt_def exec_at_def)
    qed
  qed
  then show ?thesis by (simp add: replaceAll_def)
qed

lemma replace_tag_prefix:
  assumes "firstChr CHR ''<'' r" and "CHR ''<'' \<notin> set u"
    and "exec_at r None (CHR ''<'' # u @ v) = None"
  shows "prefix (CHR ''<'' # u) (replaceAll r f ((CHR ''<'' # u) @ v))"
proof -
  have "replace_g r f None (CHR ''<'' # u @ v) = CHR ''<'' # replace_g r f (Some CHR ''<'') (u @ v)"
    by (rule replace_g_step[OF assms(3)])
  then show ?thesis
    unfolding replaceAll_def using replace_g_skip[OF assms(1,2), of f "Some CHR ''<''" v] by simp
qed


lemma replaceAll_skip:
  "firstChr c0 r \<Longrightarrow> c0 \<notin> set u \<Longrightarrow> u \<noteq> [] \<Longrightarrow>
   replaceAll r f (u @ v) = u @ replace_g r f (Some (last u)) v"
  unfolding replaceAll_def using replace_g_skip[of c0 r u f None v] by simp

lemma parseEmphasis_prefix:
  assumes "u \<noteq> []" and "CHR ''*'' \<notin> set u" and "CHR ''_'' \<notin> set u"
  shows "\<exists>w. parseEmphasis (u @ v) = u @ w"
proof -
  note a = replaceAll_skip[of "CHR ''*''" _ u, OF _ assms(2,1)]
  note b = replaceAll_skip[of "CHR ''_''" _ u, OF _ assms(3,1)]
  have fa: "firstChr CHR ''*'' (emphRegex (CHR ''*'' # w))" for w
    by (simp add: emphRegex_def)
  have fb: "firstChr CHR ''_'' (emphRegex (CHR ''_'' # w))" for w
    by (simp add: emphRegex_def)
  show ?thesis
    unfolding parseEmphasis_def Let_def a[OF fa] b[OF fb] by blast
qed

lemma parseImages_prefix:
  assumes "u \<noteq> []" and "CHR ''!'' \<notin> set u"
  shows "\<exists>w. parseImages cfg (u @ v) = u @ w"
proof -
  note a = replaceAll_skip[of "CHR ''!''" _ u, OF _ assms(2,1)]
  have f: "firstChr CHR ''!'' captionedImageRegex" "firstChr CHR ''!'' classedImageRegex"
    "firstChr CHR ''!'' plainImageRegex"
    by (simp_all add: captionedImageRegex_def classedImageRegex_def plainImageRegex_def)
  show ?thesis
    unfolding parseImages_def parseCaptionedImages_def parseClassedImages_def
      parsePlainImages_def a[OF f(1)] a[OF f(2)] a[OF f(3)]
    by blast
qed

lemma parseLinks_prefix:
  assumes "u \<noteq> []" and "CHR ''['' \<notin> set u"
  shows "\<exists>w. parseLinks (u @ v) = u @ w"
proof -
  have f: "firstChr CHR ''['' linkRegex"
    by (simp add: linkRegex_def)
  show ?thesis
    unfolding parseLinks_def replaceAll_skip[OF f assms(2,1)] by blast
qed

lemma parseCode_prefix:
  assumes "u \<noteq> []" and "CHR 0x60 \<notin> set u"
  shows "\<exists>w. parseCode (u @ v) = u @ w"
proof -
  note a = replaceAll_skip[of "CHR 0x60" _ u, OF _ assms(2,1)]
  have f: "firstChr CHR 0x60 inlineCodeRegex" "firstChr CHR 0x60 codeBlockRegex"
    by (simp_all add: inlineCodeRegex_def codeBlockRegex_def numeral_3_eq_3)
  show ?thesis
    unfolding parseCode_def Let_def a[OF f(1)] a[OF f(2)] by blast
qed

lemma replaceAll_anchored_skip:
  assumes "firstChr c0 r" and "u \<noteq> []" and "hd u \<noteq> c0" and "\<forall>c \<in> set u. \<not> isLineTerminator c"
  shows "\<exists>w. replaceAll (Seq LineStart r) f (u @ v) = u @ w"
  using replace_anchored_prefix[OF assms, of f v] by (auto simp: prefix_def)

lemma parseBlockquotes_prefix:
  assumes "CHR ''<'' \<notin> set u" and "\<forall>c \<in> set u. \<not> isLineTerminator c"
  shows "\<exists>w. parseBlockquotes (CHR ''<'' # CHR ''h'' # u @ v) = CHR ''<'' # CHR ''h'' # u @ w"
proof -
  let ?u = "CHR ''<'' # CHR ''h'' # u"
  let ?m = "Lit (''</blockquote>'' @ [NL] @ ''<blockquote>'')"
  let ?f = "\<lambda>m. ''<blockquote>'' @ grps m 1 @ ''</blockquote>''"
  have l: "\<forall>c \<in> set ?u. \<not> isLineTerminator c"
    using assms(2) by (simp add: isLineTerminator_def code_def)
  have b: "blockquoteRegex =
      Seq LineStart (Seqs [Lit ''&gt;'', Plus (Cls isSpace), Grp 1 (Plus (Cls isDot)), LineEnd])"
    by (simp add: blockquoteRegex_def)
  have "\<exists>w. replaceAll blockquoteRegex ?f (?u @ v) = ?u @ w"
    unfolding b by (rule replaceAll_anchored_skip[OF _ _ _ l, of "CHR ''&''"]) simp_all
  then obtain w1 where 1: "replaceAll blockquoteRegex ?f (?u @ v) = ?u @ w1"
    by blast
  have h: "CHR ''<'' \<notin> set (CHR ''h'' # u)"
    using assms(1) by simp
  have e: "exec_at ?m None (CHR ''<'' # (CHR ''h'' # u) @ w1) = None"
    by (simp add: exec_at_def)
  have "prefix ?u (replaceAll ?m (\<lambda>_. [NL]) (?u @ w1))"
    using replace_tag_prefix[OF _ h e, of "\<lambda>_. [NL]"] by simp
  then obtain w2 where 2: "replaceAll ?m (\<lambda>_. [NL]) (?u @ w1) = ?u @ w2"
    by (auto simp: prefix_def)
  have "parseBlockquotes (?u @ v) = ?u @ w2"
    unfolding parseBlockquotes_def Let_def 1 2 ..
  then show ?thesis by auto
qed

lemma parseRules_prefix:
  assumes "\<forall>c \<in> set u. \<not> isLineTerminator c"
  shows "\<exists>w. parseRules (CHR ''<'' # u @ v) = CHR ''<'' # u @ w"
proof -
  let ?u = "CHR ''<'' # u"
  let ?a = "Seqs [LineStart, Lit ''--'', Plus (Chr CHR ''-''), LineEnd]"
  let ?b = "Seqs [LineStart, Lit ''**'', Plus (Chr CHR ''*''), LineEnd]"
  have l: "\<forall>c \<in> set ?u. \<not> isLineTerminator c"
    using assms by (simp add: isLineTerminator_def code_def)
  have a: "?a = Seq LineStart (Seqs [Lit ''--'', Plus (Chr CHR ''-''), LineEnd])"
    and b: "?b = Seq LineStart (Seqs [Lit ''**'', Plus (Chr CHR ''*''), LineEnd])"
    by simp_all
  have "\<exists>w. replaceAll ?a (\<lambda>_. ''<hr>'') (?u @ v) = ?u @ w"
    unfolding a by (rule replaceAll_anchored_skip[OF _ _ _ l, of "CHR ''-''"]) simp_all
  then obtain w1 where 1: "replaceAll ?a (\<lambda>_. ''<hr>'') (?u @ v) = ?u @ w1"
    by blast
  have "\<exists>w. replaceAll ?b (\<lambda>_. ''<hr>'') (?u @ w1) = ?u @ w"
    unfolding b by (rule replaceAll_anchored_skip[OF _ _ _ l, of "CHR ''*''"]) simp_all
  then obtain w2 where 2: "replaceAll ?b (\<lambda>_. ''<hr>'') (?u @ w1) = ?u @ w2"
    by blast
  have "parseRules (?u @ v) = ?u @ w2"
    unfolding parseRules_def Let_def 1 2 ..
  then show ?thesis by auto
qed

subsection \<open>The list pass and the paragraph pass on a text that starts with a tag\<close>

lemma split_on_nonempty: "split_on d s \<noteq> []"
  by (induction s) (auto split: list.splits)

lemma split_on_prefix: "d \<notin> set u \<Longrightarrow> \<exists>l ls. split_on d (u @ v) = (u @ l) # ls"
proof (induction u)
  case Nil
  then show ?case using split_on_nonempty[of d v] by (cases "split_on d v") auto
next
  case (Cons c u)
  then obtain l ls where "split_on d (u @ v) = (u @ l) # ls" by auto
  then show ?case using Cons.prems by auto
qed

lemma listStep_result: "\<exists>r. result (listStep st line) = result st @ r"
  by (simp add: listStep_def Let_def split: option.splits)

lemma listFold_result: "\<exists>r. result (foldl listStep st ls) = result st @ r"
proof (induction ls arbitrary: st)
  case Nil
  show ?case by simp
next
  case (Cons l ls)
  obtain r1 where "result (listStep st l) = result st @ r1"
    using listStep_result by blast
  moreover obtain r2 where "result (foldl listStep (listStep st l) ls) = result (listStep st l) @ r2"
    using Cons[of "listStep st l"] by blast
  ultimately show ?case by simp
qed

lemma parseListLines_first:
  assumes "match_re ulRegex line = None" and "match_re olRegex line = None"
  shows "\<exists>r. parseListLines (line # ls) = line # r"
proof -
  let ?st = "listStep \<lparr> inList = False, listType = [], result = [] \<rparr> line"
  have s: "result ?st = [line]"
    by (simp add: listStep_def assms)
  obtain r where r: "result (foldl listStep ?st ls) = result ?st @ r"
    using listFold_result by blast
  show ?thesis
    by (simp add: parseListLines_def listLoop_def listFinish_def r s)
qed

lemma join_first: "\<exists>w. join sep (x # xs) = x @ w"
  by (cases xs) simp_all

lemma parseLists_prefix:
  assumes "NL \<notin> set u"
  shows "\<exists>w. parseLists (CHR ''<'' # u @ v) = CHR ''<'' # u @ w"
proof -
  obtain l ls where sp: "split_on NL ((CHR ''<'' # u) @ v) = ((CHR ''<'' # u) @ l) # ls"
    using split_on_prefix[of NL "CHR ''<'' # u" v] assms by auto
  let ?line = "CHR ''<'' # u @ l"
  have a: "match_re ulRegex ?line = None"
    by (simp add: match_re_def ulRegex_def exec_at_def search_InputStart)
  have b: "match_re olRegex ?line = None"
    by (simp add: match_re_def olRegex_def exec_at_def search_InputStart Plus_def lt_not_digit)
  obtain r where r: "parseListLines (?line # ls) = ?line # r"
    using parseListLines_first[OF a b] by blast
  obtain w where "join [NL] (?line # r) = ?line @ w"
    using join_first by blast
  then show ?thesis using sp r by (simp add: parseLists_def)
qed

lemma split_scan_acc: "\<exists>b bs. split_scan r p acc s = (acc @ b) # bs"
proof (induction r p acc s rule: split_scan.induct)
  case (1 r p acc)
  show ?case by simp
next
  case (2 r p acc c cs)
  show ?case
  proof (cases "exec_at r p (c # cs)")
    case None
    from 2(1)[OF None] obtain b bs where
      "split_scan r (Some c) (acc @ [c]) cs = ((acc @ [c]) @ b) # bs"
      by blast
    then have "split_scan r p acc (c # cs) = (acc @ c # b) # bs"
      using None by simp
    then show ?thesis by blast
  next
    case (Some m)
    show ?thesis
    proof (cases "length (rest m) < length (c # cs)")
      case True
      then show ?thesis using Some by simp
    next
      case False
      show ?thesis
      proof (cases "acc = []")
        case True
        then show ?thesis using 2(3)[OF Some False True] Some False by auto
      next
        case False
        then show ?thesis using Some \<open>\<not> length (rest m) < length (c # cs)\<close> by simp
      qed
    qed
  qed
qed

lemma split_scan_skip:
  "NL \<notin> set u \<Longrightarrow>
   split_scan blankLinesRegex p acc (u @ v) =
     split_scan blankLinesRegex (if u = [] then p else Some (last u)) (acc @ u) v"
proof (induction u arbitrary: p acc)
  case Nil
  show ?case by simp
next
  case (Cons c u)
  have "\<not> startsWith (c # u @ v) [NL, NL]"
    using Cons.prems by (auto simp: startsWith_def)
  then have "exec_at blankLinesRegex p (c # u @ v) = None"
    by (rule exec_blank_none)
  then show ?case using Cons by simp
qed

lemma split_re_prefix:
  assumes "u \<noteq> []" and "NL \<notin> set u"
  shows "\<exists>b bs. split_re blankLinesRegex (u @ v) = (u @ b) # bs"
proof -
  have "split_re blankLinesRegex (u @ v) = split_scan blankLinesRegex (Some (last u)) u v"
    using assms split_scan_skip[of u None "[]" v] by (simp add: split_re_def)
  then show ?thesis using split_scan_acc by simp
qed

lemma trim_prefix:
  assumes "u \<noteq> []" and "\<not> isSpace (hd u)" and "\<not> isSpace (last u)"
  shows "\<exists>b'. trim (u @ b) = u @ b'"
proof -
  have 1: "dropWhile isSpace (u @ b) = u @ b"
    using assms(1,2) by (cases u) auto
  have "rev u \<noteq> []" and "\<not> isSpace (hd (rev u))"
    using assms(1,3) by (simp_all add: hd_rev)
  then have 2: "dropWhile isSpace (rev u) = rev u"
    by (cases "rev u") auto
  have "\<exists>x. dropWhile isSpace (rev b @ rev u) = x @ rev u"
    using 2 by (simp add: dropWhile_append)
  then obtain x where "dropWhile isSpace (rev b @ rev u) = x @ rev u"
    by blast
  then have "trim (u @ b) = u @ rev x"
    by (simp add: trim_def 1)
  then show ?thesis by blast
qed

lemma startsWithBlockTag_append: "startsWithBlockTag u \<Longrightarrow> startsWithBlockTag (u @ b)"
proof -
  assume "startsWithBlockTag u"
  then obtain t where t: "t \<in> set blockTagNames" and s: "startsWith u (CHR ''<'' # t)"
    unfolding startsWithBlockTag_def by blast
  from s obtain r where "u = (CHR ''<'' # t) @ r"
    using startsWith_append by blast
  then have "startsWith (u @ b) (CHR ''<'' # t)"
    by (simp add: startsWith_def)
  then show ?thesis unfolding startsWithBlockTag_def using t by blast
qed

lemma parseParagraphs_prefix:
  assumes "u \<noteq> []" and "NL \<notin> set u" and "\<not> isSpace (hd u)" and "\<not> isSpace (last u)"
    and "startsWithBlockTag u"
  shows "\<exists>w. parseParagraphs (u @ v) = u @ w"
proof -
  obtain b bs where sp: "split_re blankLinesRegex (u @ v) = (u @ b) # bs"
    using split_re_prefix[OF assms(1,2)] by blast
  obtain b' where t: "trim (u @ b) = u @ b'"
    using trim_prefix[OF assms(1,3,4)] by blast
  have "startsWithBlockTag (trim (u @ b))"
    unfolding t by (rule startsWithBlockTag_append[OF assms(5)])
  then have p: "paragraphBlock (u @ b) = u @ b'"
    using paragraphBlock_tag t by simp
  obtain w where "join [NL, NL] ((u @ b') # map paragraphBlock bs) = (u @ b') @ w"
    using join_first by blast
  then show ?thesis by (simp add: parseParagraphs_def sp p)
qed

subsection \<open>The passes behind the heading pass keep the start tag of a heading\<close>

lemma word_not_lt: "isWord c \<Longrightarrow> c \<noteq> CHR ''<''"
  by (auto simp: isWord_def isUpper_def isLower_def isDigit_def code_def)

lemma slug_tagChar:
  assumes "CHR ''_'' \<notin> set e" and "c \<in> set (slugify e)"
  shows "tagChar c"
proof -
  from assms(2) consider "c = CHR ''-''" | c0 where "isWord c" "c = lowerChar c0" "c0 \<in> set e"
    using slugify_set[of e] by auto
  then show ?thesis
  proof cases
    case 1
    then show ?thesis by (simp add: tagChar_def isLineTerminator_def code_def)
  next
    case 2
    have "c \<noteq> CHR ''_''" using 2(2,3) assms(1) lowerChar_underscore by metis
    then show ?thesis
      using isWord_inert[OF 2(1)] word_not_lt[OF 2(1)] by (simp add: tagChar_def)
  qed
qed

lemma later_prefix:
  assumes "\<forall>c \<in> set a. tagChar c" and "startsWithBlockTag (''<h'' @ a @ ''>'')"
  shows "\<exists>w. parseParagraphs (parseLists (parseRules (parseBlockquotes (parseCode (parseLinks
           (parseImages cfg (parseEmphasis ((''<h'' @ a @ ''>'') @ v)))))))) =
         (''<h'' @ a @ ''>'') @ w"
proof -
  define b where "b = a @ ''>''"
  define u where "u = CHR ''<'' # CHR ''h'' # b"
  have U: "''<h'' @ a @ ''>'' = u"
    by (simp add: u_def b_def)
  have tb: "\<forall>c \<in> set b. tagChar c"
    using assms(1) by (simp add: b_def tagChar_def isLineTerminator_def code_def)
  have n: "u \<noteq> []"
    by (simp add: u_def)
  have star: "CHR ''*'' \<notin> set u" and under: "CHR ''_'' \<notin> set u" and bang: "CHR ''!'' \<notin> set u"
    and bracket: "CHR ''['' \<notin> set u" and tick: "CHR 0x60 \<notin> set u"
    using tb by (auto simp: u_def tagChar_def)
  have lt: "CHR ''<'' \<notin> set b"
    using tb by (auto simp: tagChar_def)
  have lb: "\<forall>c \<in> set b. \<not> isLineTerminator c"
    using tb by (simp add: tagChar_def)
  have lhb: "\<forall>c \<in> set (CHR ''h'' # b). \<not> isLineTerminator c"
    using lb by (simp add: isLineTerminator_def code_def)
  have nl: "NL \<notin> set (CHR ''h'' # b)"
    using lhb NL_lineTerminator by blast
  have nlu: "NL \<notin> set u"
    using nl by (simp add: u_def)
  have hd: "\<not> isSpace (hd u)"
    by (simp add: u_def tag_not_space)
  have la: "\<not> isSpace (last u)"
    by (simp add: u_def b_def tag_not_space)
  obtain w1 where 1: "parseEmphasis (u @ v) = u @ w1"
    using parseEmphasis_prefix[OF n star under] by blast
  obtain w2 where 2: "parseImages cfg (u @ w1) = u @ w2"
    using parseImages_prefix[OF n bang] by blast
  obtain w3 where 3: "parseLinks (u @ w2) = u @ w3"
    using parseLinks_prefix[OF n bracket] by blast
  obtain w4 where 4: "parseCode (u @ w3) = u @ w4"
    using parseCode_prefix[OF n tick] by blast
  obtain w5 where 5: "parseBlockquotes (u @ w4) = u @ w5"
    using parseBlockquotes_prefix[OF lt lb, of w4] by (auto simp: u_def)
  obtain w6 where 6: "parseRules (u @ w5) = u @ w6"
    using parseRules_prefix[OF lhb, of w5] by (auto simp: u_def)
  obtain w7 where 7: "parseLists (u @ w6) = u @ w7"
    using parseLists_prefix[OF nl, of w6] by (auto simp: u_def)
  obtain w8 where 8: "parseParagraphs (u @ w7) = u @ w8"
    using parseParagraphs_prefix[OF n nlu hd la] assms(2) unfolding U by blast
  show ?thesis
    unfolding U 1 2 3 4 5 6 7 8 by blast
qed

lemma escapeHtml_hashes:
  "escapeHtml (replicate k CHR ''#'' @ CHR '' '' # t) =
     replicate k CHR ''#'' @ CHR '' '' # escapeHtml t"
  by (induction k) (simp_all add: escapeHtml_map escapeChar_def)

lemma parseMarkdown_prefix:
  assumes "\<forall>c \<in> set t. \<not> isLineTerminator c \<and> c \<noteq> CHR ''_''"
    and "parseHeaders (replicate k CHR ''#'' @ CHR '' '' # escapeHtml t) = (''<h'' @ a @ ''>'') @ z"
    and "\<forall>c \<in> set a. tagChar c" and "startsWithBlockTag (''<h'' @ a @ ''>'')"
  shows "prefix (''<h'' @ a @ ''>'') (parseMarkdown cfg (replicate k CHR ''#'' @ CHR '' '' # t))"
proof -
  let ?s = "replicate k CHR ''#'' @ CHR '' '' # escapeHtml t"
  have "NL \<notin> set (escapeHtml t)"
    using escaped_chars[OF assms(1)] by blast
  then have "NL \<notin> set ?s"
    by simp
  then have c: "parseCallouts ?s = ?s"
    by (rule parseCallouts_line)
  obtain w where "parseParagraphs (parseLists (parseRules (parseBlockquotes (parseCode (parseLinks
           (parseImages cfg (parseEmphasis ((''<h'' @ a @ ''>'') @ z)))))))) =
         (''<h'' @ a @ ''>'') @ w"
    using later_prefix[OF assms(3,4)] by blast
  then have "parseMarkdown cfg (replicate k CHR ''#'' @ CHR '' '' # t) = (''<h'' @ a @ ''>'') @ w"
    unfolding parseMarkdown_def escapeHtml_hashes c assms(2) .
  then show ?thesis by simp
qed

lemma escaped_heading:
  assumes "t \<noteq> []" and "\<not> isSpace (hd t)"
    and "\<forall>c \<in> set t. \<not> isLineTerminator c \<and> c \<noteq> CHR ''_''"
  shows "escapeHtml t \<noteq> []" and "\<not> isSpace (hd (escapeHtml t))"
    and "\<forall>c \<in> set (escapeHtml t). isDot c \<and> c \<noteq> CHR ''<'' \<and> c \<noteq> CHR ''>''"
    and "CHR ''_'' \<notin> set (escapeHtml t)"
  using escapeHtml_hd[OF assms(1,2)] escaped_chars[OF assms(3)] by blast+

lemma heading2_prefix:
  assumes "t \<noteq> []" and "\<not> isSpace (hd t)"
    and "\<forall>c \<in> set t. \<not> isLineTerminator c \<and> c \<noteq> CHR ''_''"
  shows "prefix (''<h2 id='' @ [DQ] @ slugify (escapeHtml t) @ [DQ] @ ''>'')
           (parseMarkdown cfg (replicate 2 CHR ''#'' @ CHR '' '' # t))"
proof -
  note e = escaped_heading[OF assms]
  let ?a = "''2 id='' @ [DQ] @ slugify (escapeHtml t) @ [DQ]"
  have h: "parseHeaders (replicate 2 CHR ''#'' @ CHR '' '' # escapeHtml t) =
             (''<h'' @ ?a @ ''>'') @ escapeHtml t @ ''</h2>''"
    using parseHeaders_h2[OF e(1,2,3)] by simp
  have t: "\<forall>c \<in> set ?a. tagChar c"
    using slug_tagChar[OF e(4)] by (auto simp: tagChar_def isLineTerminator_def code_def)
  have b: "startsWithBlockTag (''<h'' @ ?a @ ''>'')"
    unfolding startsWithBlockTag_def
    by (rule bexI[of _ "''h2''"]) (simp_all add: startsWith_def blockTagNames_def)
  from parseMarkdown_prefix[OF assms(3) h t b, of cfg] show ?thesis by simp
qed

lemma heading_prefix:
  assumes "t \<noteq> []" and "\<not> isSpace (hd t)"
    and "\<forall>c \<in> set t. \<not> isLineTerminator c \<and> c \<noteq> CHR ''_''"
  shows "prefix ''<h1>'' (parseMarkdown cfg (replicate 1 CHR ''#'' @ CHR '' '' # t))"
    and "prefix ''<h3>'' (parseMarkdown cfg (replicate 3 CHR ''#'' @ CHR '' '' # t))"
    and "prefix ''<h4>'' (parseMarkdown cfg (replicate 4 CHR ''#'' @ CHR '' '' # t))"
    and "prefix ''<h5>'' (parseMarkdown cfg (replicate 5 CHR ''#'' @ CHR '' '' # t))"
    and "prefix ''<h6>'' (parseMarkdown cfg (replicate 6 CHR ''#'' @ CHR '' '' # t))"
proof -
  note e = escaped_heading[OF assms]
  have b: "startsWithBlockTag (''<h'' @ [d] @ ''>'')" if "d \<in> set ''13456''" for d
    unfolding startsWithBlockTag_def using that
    by (auto simp: startsWith_def blockTagNames_def)
  have t: "\<forall>c \<in> set [d]. tagChar c" if "d \<in> set ''13456''" for d
    using that by (auto simp: tagChar_def isLineTerminator_def code_def)
  have 1: "parseHeaders (replicate 1 CHR ''#'' @ CHR '' '' # escapeHtml t) =
             (''<h'' @ ''1'' @ ''>'') @ escapeHtml t @ ''</h1>''"
    using parseHeaders_h1[OF e(1,2,3)] by simp
  have 3: "parseHeaders (replicate 3 CHR ''#'' @ CHR '' '' # escapeHtml t) =
             (''<h'' @ ''3'' @ ''>'') @ escapeHtml t @ ''</h3>''"
    using parseHeaders_h3[OF e(1,2,3)] by simp
  have 4: "parseHeaders (replicate 4 CHR ''#'' @ CHR '' '' # escapeHtml t) =
             (''<h'' @ ''4'' @ ''>'') @ escapeHtml t @ ''</h4>''"
    using parseHeaders_h4[OF e(1,2,3)] by simp
  have 5: "parseHeaders (replicate 5 CHR ''#'' @ CHR '' '' # escapeHtml t) =
             (''<h'' @ ''5'' @ ''>'') @ escapeHtml t @ ''</h5>''"
    using parseHeaders_h5[OF e(1,2,3)] by simp
  have 6: "parseHeaders (replicate 6 CHR ''#'' @ CHR '' '' # escapeHtml t) =
             (''<h'' @ ''6'' @ ''>'') @ escapeHtml t @ ''</h6>''"
    using parseHeaders_h6[OF e(1,2,3)] by simp
  show "prefix ''<h1>'' (parseMarkdown cfg (replicate 1 CHR ''#'' @ CHR '' '' # t))"
    using parseMarkdown_prefix[OF assms(3) 1 t b, of cfg] by simp
  show "prefix ''<h3>'' (parseMarkdown cfg (replicate 3 CHR ''#'' @ CHR '' '' # t))"
    using parseMarkdown_prefix[OF assms(3) 3 t b, of cfg] by simp
  show "prefix ''<h4>'' (parseMarkdown cfg (replicate 4 CHR ''#'' @ CHR '' '' # t))"
    using parseMarkdown_prefix[OF assms(3) 4 t b, of cfg] by simp
  show "prefix ''<h5>'' (parseMarkdown cfg (replicate 5 CHR ''#'' @ CHR '' '' # t))"
    using parseMarkdown_prefix[OF assms(3) 5 t b, of cfg] by simp
  show "prefix ''<h6>'' (parseMarkdown cfg (replicate 6 CHR ''#'' @ CHR '' '' # t))"
    using parseMarkdown_prefix[OF assms(3) 6 t b, of cfg] by simp
qed

subsection \<open>A heading line without markup\<close>

lemma headingChar_line: "headingChar c \<Longrightarrow> \<not> isLineTerminator c \<and> c \<noteq> CHR ''_''"
  by (simp add: headingChar_def markupChars_def)

lemma escaped_inert:
  assumes "\<forall>c \<in> set t. headingChar c"
  shows "inert (escapeHtml t)"
  unfolding inert_def
proof
  fix x assume "x \<in> set (escapeHtml t)"
  then have "x \<in> set t \<or> x \<in> set ''&amp;lt;gt;''"
    using escapeHtml_set by blast
  moreover have "\<forall>y \<in> set ''&amp;lt;gt;''.
      y \<notin> set [CHR ''*'', CHR ''_'', CHR ''!'', CHR ''['', CHR 0x60] \<and> \<not> isLineTerminator y"
    by (simp add: isLineTerminator_def code_def)
  moreover have "\<forall>y \<in> set t.
      y \<notin> set [CHR ''*'', CHR ''_'', CHR ''!'', CHR ''['', CHR 0x60] \<and> \<not> isLineTerminator y"
    using assms by (simp add: headingChar_def markupChars_def)
  ultimately show "x \<notin> set [CHR ''*'', CHR ''_'', CHR ''!'', CHR ''['', CHR 0x60]
                   \<and> \<not> isLineTerminator x"
    by blast
qed

lemma parseMarkdown_plain:
  assumes "\<forall>c \<in> set t. headingChar c"
    and "parseHeaders (replicate k CHR ''#'' @ CHR '' '' # escapeHtml t) = CHR ''<'' # b @ ''>''"
    and "inert (CHR ''<'' # b @ ''>'')" and "startsWithBlockTag (CHR ''<'' # b @ ''>'')"
  shows "parseMarkdown cfg (replicate k CHR ''#'' @ CHR '' '' # t) = CHR ''<'' # b @ ''>''"
proof -
  let ?s = "replicate k CHR ''#'' @ CHR '' '' # escapeHtml t"
  have l: "\<forall>c \<in> set t. \<not> isLineTerminator c \<and> c \<noteq> CHR ''_''"
    using assms(1) headingChar_line by blast
  have "NL \<notin> set (escapeHtml t)"
    using escaped_chars[OF l] by blast
  then have "NL \<notin> set ?s"
    by simp
  then have c: "parseCallouts ?s = ?s"
    by (rule parseCallouts_line)
  show ?thesis
    unfolding parseMarkdown_def escapeHtml_hashes c assms(2)
    by (rule later_passes[OF assms(3,4)])
qed

lemma inert_append: "inert (a @ b) \<longleftrightarrow> inert a \<and> inert b"
  by (simp only: inert_def set_append ball_Un)

lemma inert_angle: "inert ''<''" "inert ''>''"
  by (simp_all add: inert_def isLineTerminator_def code_def)

lemma inert_tagged:
  assumes "inert e" and "inert a" and "inert z"
  shows "inert (CHR ''<'' # (a @ e @ z) @ ''>'')"
proof -
  have "inert (''<'' @ a @ e @ z @ ''>'')"
    using assms inert_angle by (simp only: inert_append simp_thms)
  then show ?thesis by simp
qed

lemma plain_level:
  assumes "\<forall>c \<in> set t. headingChar c"
    and "parseHeaders (replicate k CHR ''#'' @ CHR '' '' # escapeHtml t) =
           CHR ''<'' # (a @ escapeHtml t @ z) @ ''>''"
    and "inert a" and "inert z" and "startsWithBlockTag (CHR ''<'' # a)"
  shows "parseMarkdown cfg (replicate k CHR ''#'' @ CHR '' '' # t) =
           CHR ''<'' # (a @ escapeHtml t @ z) @ ''>''"
proof -
  have i: "inert (CHR ''<'' # (a @ escapeHtml t @ z) @ ''>'')"
    by (rule inert_tagged[OF escaped_inert[OF assms(1)] assms(3,4)])
  have "startsWithBlockTag ((CHR ''<'' # a) @ (escapeHtml t @ z @ ''>''))"
    by (rule startsWithBlockTag_append[OF assms(5)])
  then have b: "startsWithBlockTag (CHR ''<'' # (a @ escapeHtml t @ z) @ ''>'')"
    by simp
  show ?thesis by (rule parseMarkdown_plain[OF assms(1,2) i b])
qed

lemma inert_tags:
  "inert ''h1>''" "inert ''h3>''" "inert ''h4>''" "inert ''h5>''" "inert ''h6>''"
  "inert ''</h1''" "inert ''</h2''" "inert ''</h3''" "inert ''</h4''" "inert ''</h5''"
  "inert ''</h6''"
  by (simp_all add: inert_def isLineTerminator_def code_def)

lemma block_tags:
  "startsWithBlockTag (CHR ''<'' # ''h1>'')" "startsWithBlockTag (CHR ''<'' # ''h3>'')"
  "startsWithBlockTag (CHR ''<'' # ''h4>'')" "startsWithBlockTag (CHR ''<'' # ''h5>'')"
  "startsWithBlockTag (CHR ''<'' # ''h6>'')"
  unfolding startsWithBlockTag_def
  by (rule bexI[of _ "''h1''"], simp add: startsWith_def, simp add: blockTagNames_def,
      rule bexI[of _ "''h3''"], simp add: startsWith_def, simp add: blockTagNames_def,
      rule bexI[of _ "''h4''"], simp add: startsWith_def, simp add: blockTagNames_def,
      rule bexI[of _ "''h5''"], simp add: startsWith_def, simp add: blockTagNames_def,
      rule bexI[of _ "''h6''"], simp add: startsWith_def, simp add: blockTagNames_def)

lemma heading_plain:
  assumes "t \<noteq> []" and "\<not> isSpace (hd t)" and "\<forall>c \<in> set t. headingChar c"
  shows "parseMarkdown cfg (replicate 2 CHR ''#'' @ CHR '' '' # t) =
           ''<h2 id='' @ [DQ] @ slugify (escapeHtml t) @ [DQ] @ ''>'' @ escapeHtml t @ ''</h2>''"
    and "parseMarkdown cfg (replicate 1 CHR ''#'' @ CHR '' '' # t) = ''<h1>'' @ escapeHtml t @ ''</h1>''"
    and "parseMarkdown cfg (replicate 3 CHR ''#'' @ CHR '' '' # t) = ''<h3>'' @ escapeHtml t @ ''</h3>''"
    and "parseMarkdown cfg (replicate 4 CHR ''#'' @ CHR '' '' # t) = ''<h4>'' @ escapeHtml t @ ''</h4>''"
    and "parseMarkdown cfg (replicate 5 CHR ''#'' @ CHR '' '' # t) = ''<h5>'' @ escapeHtml t @ ''</h5>''"
    and "parseMarkdown cfg (replicate 6 CHR ''#'' @ CHR '' '' # t) = ''<h6>'' @ escapeHtml t @ ''</h6>''"
proof -
  have l: "\<forall>c \<in> set t. \<not> isLineTerminator c \<and> c \<noteq> CHR ''_''"
    using assms(3) headingChar_line by blast
  note e = escaped_heading[OF assms(1,2) l]
  let ?E = "escapeHtml t"
  let ?a = "''h2 id='' @ [DQ] @ slugify ?E @ [DQ] @ ''>''"
  have "inert (''h2 id='' @ [DQ])" and "inert ([DQ] @ ''>'')"
    by (simp_all add: inert_def isLineTerminator_def code_def)
  then have ia: "inert ?a"
    using slugify_inert[OF e(4)] by (simp only: inert_append simp_thms append_assoc)
  have ba: "startsWithBlockTag (CHR ''<'' # ?a)"
    unfolding startsWithBlockTag_def
    by (rule bexI[of _ "''h2''"]) (simp_all add: startsWith_def blockTagNames_def)
  have 2: "parseHeaders (replicate 2 CHR ''#'' @ CHR '' '' # ?E) =
      CHR ''<'' # (?a @ ?E @ ''</h2'') @ ''>''"
    using parseHeaders_h2[OF e(1,2,3)] by simp
  have 1: "parseHeaders (replicate 1 CHR ''#'' @ CHR '' '' # ?E) =
      CHR ''<'' # (''h1>'' @ ?E @ ''</h1'') @ ''>''"
    using parseHeaders_h1[OF e(1,2,3)] by simp
  have 3: "parseHeaders (replicate 3 CHR ''#'' @ CHR '' '' # ?E) =
      CHR ''<'' # (''h3>'' @ ?E @ ''</h3'') @ ''>''"
    using parseHeaders_h3[OF e(1,2,3)] by simp
  have 4: "parseHeaders (replicate 4 CHR ''#'' @ CHR '' '' # ?E) =
      CHR ''<'' # (''h4>'' @ ?E @ ''</h4'') @ ''>''"
    using parseHeaders_h4[OF e(1,2,3)] by simp
  have 5: "parseHeaders (replicate 5 CHR ''#'' @ CHR '' '' # ?E) =
      CHR ''<'' # (''h5>'' @ ?E @ ''</h5'') @ ''>''"
    using parseHeaders_h5[OF e(1,2,3)] by simp
  have 6: "parseHeaders (replicate 6 CHR ''#'' @ CHR '' '' # ?E) =
      CHR ''<'' # (''h6>'' @ ?E @ ''</h6'') @ ''>''"
    using parseHeaders_h6[OF e(1,2,3)] by simp
  show "parseMarkdown cfg (replicate 2 CHR ''#'' @ CHR '' '' # t) =
           ''<h2 id='' @ [DQ] @ slugify ?E @ [DQ] @ ''>'' @ ?E @ ''</h2>''"
    using plain_level[OF assms(3) 2 ia inert_tags(7) ba, of cfg] by simp
  show "parseMarkdown cfg (replicate 1 CHR ''#'' @ CHR '' '' # t) = ''<h1>'' @ ?E @ ''</h1>''"
    using plain_level[OF assms(3) 1 inert_tags(1,6) block_tags(1), of cfg] by simp
  show "parseMarkdown cfg (replicate 3 CHR ''#'' @ CHR '' '' # t) = ''<h3>'' @ ?E @ ''</h3>''"
    using plain_level[OF assms(3) 3 inert_tags(2,8) block_tags(2), of cfg] by simp
  show "parseMarkdown cfg (replicate 4 CHR ''#'' @ CHR '' '' # t) = ''<h4>'' @ ?E @ ''</h4>''"
    using plain_level[OF assms(3) 4 inert_tags(3,9) block_tags(3), of cfg] by simp
  show "parseMarkdown cfg (replicate 5 CHR ''#'' @ CHR '' '' # t) = ''<h5>'' @ ?E @ ''</h5>''"
    using plain_level[OF assms(3) 5 inert_tags(4,10) block_tags(4), of cfg] by simp
  show "parseMarkdown cfg (replicate 6 CHR ''#'' @ CHR '' '' # t) = ''<h6>'' @ ?E @ ''</h6>''"
    using plain_level[OF assms(3) 6 inert_tags(5,11) block_tags(5), of cfg] by simp
qed

section \<open>The claims\<close>

text \<open>
  C1. When the retrieval fails (a non-success status, or a transport error thrown by the
  fetch), \<open>loadContent\<close> is to restore the fallback content saved before the loading
  indicator was shown, run the interactive augmenter on it and complete without raising.
  The code does not: \<open>fallbackContent\<close> is a \<open>const\<close> of the \<open>try\<close> block, so the
  \<open>catch\<close> block that reads it raises a ReferenceError, and the container keeps the
  loading indicator. Evaluated here for a 404 response and for a rejected fetch.
\<close>

theorem loadContent_failure_raises:
  "loadContent (pageEnv (Responded 404 [])) default_config ''a.md'' oldContainer =
     (Inl (ReferenceError ''fallbackContent is not defined''),
      oldContainer\<lparr> innerHTML := loadingIndicator,
                     effects := [Warned ''Failed to load content: 404''] \<rparr>)
   \<and> loadContent (pageEnv (Rejected ''Failed to fetch'')) default_config ''a.md'' oldContainer =
     (Inl (ReferenceError ''fallbackContent is not defined''),
      oldContainer\<lparr> innerHTML := loadingIndicator, effects := [Warned ''Failed to fetch''] \<rparr>)"
proof -
  have a: "loadContent (pageEnv (Responded 404 [])) default_config ''a.md'' oldContainer =
     (Inl (ReferenceError ''fallbackContent is not defined''),
      oldContainer\<lparr> innerHTML := loadingIndicator,
                     effects := [Warned ''Failed to load content: 404''] \<rparr>)"
    by code_simp
  have b: "loadContent (pageEnv (Rejected ''Failed to fetch'')) default_config ''a.md'' oldContainer =
     (Inl (ReferenceError ''fallbackContent is not defined''),
      oldContainer\<lparr> innerHTML := loadingIndicator, effects := [Warned ''Failed to fetch''] \<rparr>)"
    by code_simp
  from a b show ?thesis by (rule conjI)
qed

text \<open>
  C2, as stated: transforming the output of the transformer a second time wraps no block
  element of that output in a paragraph. It does: the second transformation escapes the
  angle brackets of the heading first, so its paragraph pass no longer sees a block tag
  and wraps the escaped heading in a paragraph.
\<close>

theorem second_transform_wraps_heading:
  "parseMarkdown default_config ''# T'' = ''<h1>T</h1>''
   \<and> parseMarkdown default_config (parseMarkdown default_config ''# T'') =
       ''<p>&lt;h1&gt;T&lt;/h1&gt;</p>''"
proof -
  have a: "parseMarkdown default_config ''# T'' = ''<h1>T</h1>''"
    by code_simp
  have b: "parseMarkdown default_config ''<h1>T</h1>'' = ''<p>&lt;h1&gt;T&lt;/h1&gt;</p>''"
    by code_simp
  from a b show ?thesis by simp
qed

text \<open>
  C2, amended: applying the paragraph-wrapping pass a second time wraps no block element
  in an additional paragraph: every block that, once trimmed, starts with a block-level
  tag (h1 to h6, ul, ol, li, blockquote, pre, div, figure, hr, table) is mapped to the
  trimmed block itself, and for a text that is one such block (no blank line)
  \<open>parseParagraphs\<close> returns the trimmed text.
\<close>

theorem paragraph_pass_keeps_block:
  assumes "startsWithBlockTag (trim b)"
  shows "paragraphBlock b = trim b \<and> (noBlankLine b \<longrightarrow> parseParagraphs b = trim b)"
  using assms by (simp add: paragraphBlock_tag parseParagraphs_block)

theorem paragraph_pass_keeps_block_witness:
  "startsWithBlockTag (trim ''<h1>T</h1>'') \<and> noBlankLine ''<h1>T</h1>''
   \<and> paragraphBlock ''<h1>T</h1>'' = ''<h1>T</h1>''
   \<and> parseParagraphs ''<h1>T</h1>'' = ''<h1>T</h1>''"
proof -
  have h1: "startsWithBlockTag (trim ''<h1>T</h1>'')"
    by code_simp
  have h2: "noBlankLine ''<h1>T</h1>''"
    by code_simp
  have t: "trim ''<h1>T</h1>'' = ''<h1>T</h1>''"
    by code_simp
  from paragraph_pass_keeps_block[OF h1] h2
  have "paragraphBlock ''<h1>T</h1>'' = trim ''<h1>T</h1>''"
    and "parseParagraphs ''<h1>T</h1>'' = trim ''<h1>T</h1>''"
    by blast+
  then have "paragraphBlock ''<h1>T</h1>'' = ''<h1>T</h1>''"
    and "parseParagraphs ''<h1>T</h1>'' = ''<h1>T</h1>''"
    unfolding t .
  with h1 h2 show ?thesis by blast
qed

text \<open>
  C3, as stated: the heading element of every level 1 to 6 carries a generated
  identifier that is a function of the heading text. It does not: the transformer writes
  an identifier for level 2 only; a level-1 heading is emitted without any attribute. And
  at level 2 the emphasis passes, which run after the identifier is written, rewrite an
  identifier that has an underscore in it.
\<close>

theorem level1_heading_without_identifier:
  "parseMarkdown default_config ''# T'' = ''<h1>T</h1>''
   \<and> \<not> includes_str (parseMarkdown default_config ''# T'') ''id=''
   \<and> parseMarkdown default_config ''## a_b'' =
       ''<h2 id='' @ [DQ] @ ''a<em>b'' @ [DQ] @ ''>a</em>b</h2>''"
proof -
  have a: "parseMarkdown default_config ''# T'' = ''<h1>T</h1>''"
    by code_simp
  have b: "\<not> includes_str ''<h1>T</h1>'' ''id=''"
    by code_simp
  have c: "parseMarkdown default_config ''## a_b'' =
       ''<h2 id='' @ [DQ] @ ''a<em>b'' @ [DQ] @ ''>a</em>b</h2>''"
    by code_simp
  from a b c show ?thesis by simp
qed

text \<open>
  C3, amended: for every line of two \<open>#\<close>, a space and heading text (not empty, not
  starting with whitespace, on one line and without underscore), the output of the
  transformer starts with the level-2 start tag whose identifier attribute is \<open>slugify\<close>
  of the escaped heading text (the text with \<open>& < >\<close> written as character references), a
  function of the text without upper-case letters and without whitespace; for the levels
  1, 3, 4, 5 and 6 the output starts with the start tag without any attribute. When the
  text has, moreover, none of the characters \<open>* ! [\<close> and the backquote, the output is
  exactly the heading element around the escaped text.
\<close>

theorem heading_identifier_level2_only:
  assumes "t \<noteq> []" and "\<not> isSpace (hd t)"
    and "\<forall>c \<in> set t. \<not> isLineTerminator c \<and> c \<noteq> CHR ''_''"
  shows "prefix (''<h2 id='' @ [DQ] @ slugify (escapeHtml t) @ [DQ] @ ''>'')
           (parseMarkdown cfg (''## '' @ t))
    \<and> (\<forall>c \<in> set (slugify (escapeHtml t)). \<not> isUpper c \<and> \<not> isSpace c)
    \<and> prefix ''<h1>'' (parseMarkdown cfg (''# '' @ t))
    \<and> prefix ''<h3>'' (parseMarkdown cfg (''### '' @ t))
    \<and> prefix ''<h4>'' (parseMarkdown cfg (''#### '' @ t))
    \<and> prefix ''<h5>'' (parseMarkdown cfg (''##### '' @ t))
    \<and> prefix ''<h6>'' (parseMarkdown cfg (''###### '' @ t))
    \<and> ((\<forall>c \<in> set t. headingChar c) \<longrightarrow>
          parseMarkdown cfg (''## '' @ t) =
            ''<h2 id='' @ [DQ] @ slugify (escapeHtml t) @ [DQ] @ ''>'' @ escapeHtml t @ ''</h2>''
        \<and> parseMarkdown cfg (''# '' @ t) = ''<h1>'' @ escapeHtml t @ ''</h1>''
        \<and> parseMarkdown cfg (''### '' @ t) = ''<h3>'' @ escapeHtml t @ ''</h3>''
        \<and> parseMarkdown cfg (''#### '' @ t) = ''<h4>'' @ escapeHtml t @ ''</h4>''
        \<and> parseMarkdown cfg (''##### '' @ t) = ''<h5>'' @ escapeHtml t @ ''</h5>''
        \<and> parseMarkdown cfg (''###### '' @ t) = ''<h6>'' @ escapeHtml t @ ''</h6>'')"
proof -
  have r: "''# '' @ t = replicate 1 CHR ''#'' @ CHR '' '' # t"
    "''## '' @ t = replicate 2 CHR ''#'' @ CHR '' '' # t"
    "''### '' @ t = replicate 3 CHR ''#'' @ CHR '' '' # t"
    "''#### '' @ t = replicate 4 CHR ''#'' @ CHR '' '' # t"
    "''##### '' @ t = replicate 5 CHR ''#'' @ CHR '' '' # t"
    "''###### '' @ t = replicate 6 CHR ''#'' @ CHR '' '' # t"
    by (simp_all add: numeral_eq_Suc)
  have 2: "prefix (''<h2 id='' @ [DQ] @ slugify (escapeHtml t) @ [DQ] @ ''>'')
           (parseMarkdown cfg (''## '' @ t))"
    unfolding r by (rule heading2_prefix[OF assms])
  have 1: "prefix ''<h1>'' (parseMarkdown cfg (''# '' @ t))"
    unfolding r by (rule heading_prefix(1)[OF assms])
  have 3: "prefix ''<h3>'' (parseMarkdown cfg (''### '' @ t))"
    unfolding r by (rule heading_prefix(2)[OF assms])
  have 4: "prefix ''<h4>'' (parseMarkdown cfg (''#### '' @ t))"
    unfolding r by (rule heading_prefix(3)[OF assms])
  have 5: "prefix ''<h5>'' (parseMarkdown cfg (''##### '' @ t))"
    unfolding r by (rule heading_prefix(4)[OF assms])
  have 6: "prefix ''<h6>'' (parseMarkdown cfg (''###### '' @ t))"
    unfolding r by (rule heading_prefix(5)[OF assms])
  have p: "parseMarkdown cfg (''## '' @ t) =
            ''<h2 id='' @ [DQ] @ slugify (escapeHtml t) @ [DQ] @ ''>'' @ escapeHtml t @ ''</h2>''
        \<and> parseMarkdown cfg (''# '' @ t) = ''<h1>'' @ escapeHtml t @ ''</h1>''
        \<and> parseMarkdown cfg (''### '' @ t) = ''<h3>'' @ escapeHtml t @ ''</h3>''
        \<and> parseMarkdown cfg (''#### '' @ t) = ''<h4>'' @ escapeHtml t @ ''</h4>''
        \<and> parseMarkdown cfg (''##### '' @ t) = ''<h5>'' @ escapeHtml t @ ''</h5>''
        \<and> parseMarkdown cfg (''###### '' @ t) = ''<h6>'' @ escapeHtml t @ ''</h6>''"
    if h: "\<forall>c \<in> set t. headingChar c"
    unfolding r using heading_plain[OF assms(1,2) h, of cfg] by blast
  from 1 2 3 4 5 6 p slugify_lower[of "escapeHtml t"] show ?thesis by blast
qed

theorem heading_identifier_level2_only_witness:
  "''Tips & Best Practices'' \<noteq> [] \<and> \<not> isSpace (hd ''Tips & Best Practices'')
   \<and> list_all (\<lambda>c. \<not> isLineTerminator c \<and> c \<noteq> CHR ''_'') ''Tips & Best Practices''
   \<and> list_all headingChar ''Tips & Best Practices''
   \<and> parseMarkdown default_config ''## Tips & Best Practices'' =
       ''<h2 id='' @ [DQ] @ ''tips-amp-best-practices'' @ [DQ] @ ''>Tips &amp; Best Practices</h2>''
   \<and> parseMarkdown default_config ''### Tips & Best Practices'' =
       ''<h3>Tips &amp; Best Practices</h3>''
   \<and> ''Costs *per* year'' \<noteq> [] \<and> \<not> isSpace (hd ''Costs *per* year'')
   \<and> list_all (\<lambda>c. \<not> isLineTerminator c \<and> c \<noteq> CHR ''_'') ''Costs *per* year''
   \<and> prefix (''<h2 id='' @ [DQ] @ ''costs-per-year'' @ [DQ] @ ''>'')
        (parseMarkdown default_config ''## Costs *per* year'')
   \<and> prefix ''<h3>'' (parseMarkdown default_config ''### Costs *per* year'')"
proof -
  have h1: "''Tips & Best Practices'' \<noteq> []"
    by simp
  have h2: "\<not> isSpace (hd ''Tips & Best Practices'')"
    by code_simp
  have h3': "list_all (\<lambda>c. \<not> isLineTerminator c \<and> c \<noteq> CHR ''_'') ''Tips & Best Practices''"
    by code_simp
  then have h3: "\<forall>c \<in> set ''Tips & Best Practices''. \<not> isLineTerminator c \<and> c \<noteq> CHR ''_''"
    by (simp only: list_all_iff)
  have h4': "list_all headingChar ''Tips & Best Practices''"
    by code_simp
  then have h4: "\<forall>c \<in> set ''Tips & Best Practices''. headingChar c"
    by (simp only: list_all_iff)
  have e: "escapeHtml ''Tips & Best Practices'' = ''Tips &amp; Best Practices''"
    by code_simp
  have s: "slugify ''Tips &amp; Best Practices'' = ''tips-amp-best-practices''"
    by code_simp
  note th = heading_identifier_level2_only[OF h1 h2 h3, of default_config]
  from th h4 have "parseMarkdown default_config (''## '' @ ''Tips & Best Practices'') =
      ''<h2 id='' @ [DQ] @ slugify (escapeHtml ''Tips & Best Practices'') @ [DQ] @ ''>''
      @ escapeHtml ''Tips & Best Practices'' @ ''</h2>''"
    by blast
  then have a: "parseMarkdown default_config ''## Tips & Best Practices'' =
       ''<h2 id='' @ [DQ] @ ''tips-amp-best-practices'' @ [DQ] @ ''>Tips &amp; Best Practices</h2>''"
    unfolding e s by simp
  from th h4 have "parseMarkdown default_config (''### '' @ ''Tips & Best Practices'') =
      ''<h3>'' @ escapeHtml ''Tips & Best Practices'' @ ''</h3>''"
    by blast
  then have b: "parseMarkdown default_config ''### Tips & Best Practices'' =
       ''<h3>Tips &amp; Best Practices</h3>''"
    unfolding e by simp
  have k1: "''Costs *per* year'' \<noteq> []"
    by simp
  have k2: "\<not> isSpace (hd ''Costs *per* year'')"
    by code_simp
  have k3': "list_all (\<lambda>c. \<not> isLineTerminator c \<and> c \<noteq> CHR ''_'') ''Costs *per* year''"
    by code_simp
  then have k3: "\<forall>c \<in> set ''Costs *per* year''. \<not> isLineTerminator c \<and> c \<noteq> CHR ''_''"
    by (simp only: list_all_iff)
  have ks: "slugify (escapeHtml ''Costs *per* year'') = ''costs-per-year''"
    by code_simp
  note tk = heading_identifier_level2_only[OF k1 k2 k3, of default_config]
  from tk have "prefix (''<h2 id='' @ [DQ] @ slugify (escapeHtml ''Costs *per* year'') @ [DQ] @ ''>'')
           (parseMarkdown default_config (''## '' @ ''Costs *per* year''))"
    by (rule conjunct1)
  then have c: "prefix (''<h2 id='' @ [DQ] @ ''costs-per-year'' @ [DQ] @ ''>'')
        (parseMarkdown default_config ''## Costs *per* year'')"
    unfolding ks by simp
  from tk have "prefix ''<h3>'' (parseMarkdown default_config (''### '' @ ''Costs *per* year''))"
    by blast
  then have d: "prefix ''<h3>'' (parseMarkdown default_config ''### Costs *per* year'')"
    by simp
  from h1 h2 h3' h4' a b k1 k2 k3' c d show ?thesis by blast
qed

text \<open>
  C4, as stated: \<open>slugify\<close> removes every character outside letters, digits, whitespace
  and the hyphen. It does not: the class \<open>\w\<close> of the code keeps the underscore.
\<close>

theorem slugify_keeps_underscore:
  "slugify ''a_b'' = ''a_b'' \<and> slugify_spec ''a_b'' = ''ab''"
proof -
  have a: "slugify ''a_b'' = ''a_b''"
    by code_simp
  have b: "slugify_spec ''a_b'' = ''ab''"
    by code_simp
  from a b show ?thesis by (rule conjI)
qed

text \<open>
  C4, amended: up to leading and trailing hyphens, \<open>slugify\<close> returns the text lowercased,
  with every character outside letters, digits, the underscore, whitespace and the hyphen
  removed, every run of whitespace replaced by one hyphen and every run of hyphens by one
  hyphen; and \<open>slugify "Household Budget Impacts"\<close> is \<open>household-budget-impacts\<close>. (As a
  function of its argument, \<open>slugify\<close> returns identical output for identical input.)
\<close>

theorem slugify_characterisation:
  "stripHyphens (slugify text) =
     stripHyphens
       (collapseRuns (\<lambda>c. c = CHR ''-'') CHR ''-''
         (collapseRuns isSpace CHR ''-'' (filter slugKeeps (map lowerChar text))))
   \<and> slugify ''Household Budget Impacts'' = ''household-budget-impacts''"
proof -
  have a: "slugify ''Household Budget Impacts'' = ''household-budget-impacts''"
    by code_simp
  show ?thesis using a by (simp add: slugify_eq)
qed

text \<open>
  C5. Every dismissal of the zoom overlay (backdrop click, dismiss control, Escape key) is
  to remove the keydown listener installed for that overlay. The code removes it on the
  Escape path only: after a click on the backdrop or on the dismiss control the overlay is
  gone and its listener is still installed.
\<close>

theorem lightbox_click_keeps_listener:
  "run [ClickImage, ClickBackdrop 0] initialDocument =
     \<lparr> lightboxes = [], overflow = [], keydownListeners = [0], opened = 1 \<rparr>
   \<and> run [ClickImage, ClickClose 0] initialDocument =
     \<lparr> lightboxes = [], overflow = [], keydownListeners = [0], opened = 1 \<rparr>
   \<and> run [ClickImage, KeyDown ''Escape''] initialDocument =
     \<lparr> lightboxes = [], overflow = [], keydownListeners = [], opened = 1 \<rparr>"
  by (simp add: run_def initialDocument_def openLightbox_def close_def escHandler_def)

text \<open>
  C6. The line \<open>## Costs for Energy at Home\<close> is transformed into a level-2 heading element
  with the identifier \<open>costs-for-energy-at-home\<close>, and the navigation generator, on the
  headings of that markup, emits an entry whose link target is that identifier and leaves
  the heading with that identifier; a successful load of that document writes this
  navigation, then runs the interactive augmenter and the animations.
\<close>

theorem heading_navigation_roundtrip:
  "parseMarkdown default_config costsLine = costsHeadingHtml
   \<and> queryHeaders costsHeadingHtml =
       [\<lparr> tagName = ''H2'', hid = ''costs-for-energy-at-home'', scrollMarginTop = [],
          textContent = ''Costs for Energy at Home'' \<rparr>]
   \<and> generateTableOfContents True (queryHeaders costsHeadingHtml) =
       (Some costsTocHtml, [costsHeading])
   \<and> includes_str costsTocHtml
        (''<a href='' @ [DQ] @ ''#costs-for-energy-at-home'' @ [DQ] @ '' data-target='' @ [DQ]
         @ ''costs-for-energy-at-home'' @ [DQ] @ ''>'')
   \<and> fst (loadContent (pageEnv (Responded 200 costsLine)) default_config ''a.md''
             oldContainer) = Inr ()
   \<and> effects (snd (loadContent (pageEnv (Responded 200 costsLine)) default_config ''a.md''
                      oldContainer)) =
       [TocWritten costsTocHtml, Augmented, Animated]
   \<and> headings (snd (loadContent (pageEnv (Responded 200 costsLine)) default_config ''a.md''
                       oldContainer)) =
       [costsHeading]"
proof -
  have a: "parseMarkdown default_config costsLine = costsHeadingHtml"
    by code_simp
  have b: "queryHeaders costsHeadingHtml =
       [\<lparr> tagName = ''H2'', hid = ''costs-for-energy-at-home'', scrollMarginTop = [],
          textContent = ''Costs for Energy at Home'' \<rparr>]"
    by code_simp
  have c: "generateTableOfContents True (queryHeaders costsHeadingHtml) =
       (Some costsTocHtml, [costsHeading])"
    by code_simp
  have d: "includes_str costsTocHtml
        (''<a href='' @ [DQ] @ ''#costs-for-energy-at-home'' @ [DQ] @ '' data-target='' @ [DQ]
         @ ''costs-for-energy-at-home'' @ [DQ] @ ''>'')"
    by code_simp
  have e: "fst (loadContent (pageEnv (Responded 200 costsLine)) default_config ''a.md''
             oldContainer) = Inr ()"
    by code_simp
  have f: "effects (snd (loadContent (pageEnv (Responded 200 costsLine)) default_config ''a.md''
                      oldContainer)) =
       [TocWritten costsTocHtml, Augmented, Animated]"
    by code_simp
  have g: "headings (snd (loadContent (pageEnv (Responded 200 costsLine)) default_config ''a.md''
                       oldContainer)) =
       [costsHeading]"
    by code_simp
  from a b c d e f g show ?thesis by blast
qed

text \<open>
  C7. For the text of the lines \<open>- a\<close>, \<open>- b\<close>, \<open>1. c\<close> the list pass \<open>parseLists\<close>
  closes the unordered list before it opens the ordered one: its output is one unordered
  list with the items a and b, then an ordered list with the item c; and for the lines
  \<open>- a\<close>, \<open>text\<close> it closes the list before the line that is no item. In general
  (\<open>parseLists\<close> runs its loop over the lines of the text and joins the result), after
  any lines \<open>pre\<close> that leave a list open, the next line closes that list first when it
  is an item of the other list type or no list item.
\<close>

theorem list_pass_closes_open_list:
  "parseLists (''- a'' @ [NL] @ ''- b'' @ [NL] @ ''1. c'') =
     ''<ul>'' @ [NL] @ ''<li>a</li>'' @ [NL] @ ''<li>b</li>'' @ [NL] @ ''</ul>'' @ [NL]
     @ ''<ol>'' @ [NL] @ ''<li>c</li>'' @ [NL] @ ''</ol>''
   \<and> parseLists (''- a'' @ [NL] @ ''text'') =
     ''<ul>'' @ [NL] @ ''<li>a</li>'' @ [NL] @ ''</ul>'' @ [NL] @ ''text''
   \<and> parseListLines [''- a'', ''- b'', ''1. c''] =
     [''<ul>'', ''<li>a</li>'', ''<li>b</li>'', ''</ul>'', ''<ol>'', ''<li>c</li>'', ''</ol>'']
   \<and> parseLists html = join [NL] (listFinish (listLoop (split_on NL html)))
   \<and> (inList (listLoop pre) \<longrightarrow>
        (listType (listLoop pre) = ''ul'' \<or> listType (listLoop pre) = ''ol'')
        \<and> (listType (listLoop pre) = ''ol'' \<and> match_re ulRegex line = Some m \<longrightarrow>
             result (listLoop (pre @ [line])) =
               result (listLoop pre) @ [''</ol>'', ''<ul>'', listItem m])
        \<and> (listType (listLoop pre) = ''ul'' \<and> match_re ulRegex line = None
             \<and> match_re olRegex line = Some m \<longrightarrow>
             result (listLoop (pre @ [line])) =
               result (listLoop pre) @ [''</ul>'', ''<ol>'', listItem m])
        \<and> (match_re ulRegex line = None \<and> match_re olRegex line = None \<longrightarrow>
             result (listLoop (pre @ [line])) =
               result (listLoop pre) @ [closeTag (listType (listLoop pre)), line]
             \<and> \<not> inList (listLoop (pre @ [line]))))"
proof -
  have a: "parseListLines [''- a'', ''- b'', ''1. c''] =
     [''<ul>'', ''<li>a</li>'', ''<li>b</li>'', ''</ul>'', ''<ol>'', ''<li>c</li>'', ''</ol>'']"
    by code_simp
  have s: "parseLists (''- a'' @ [NL] @ ''- b'' @ [NL] @ ''1. c'') =
     ''<ul>'' @ [NL] @ ''<li>a</li>'' @ [NL] @ ''<li>b</li>'' @ [NL] @ ''</ul>'' @ [NL]
     @ ''<ol>'' @ [NL] @ ''<li>c</li>'' @ [NL] @ ''</ol>''"
    by code_simp
  have t: "parseLists (''- a'' @ [NL] @ ''text'') =
     ''<ul>'' @ [NL] @ ''<li>a</li>'' @ [NL] @ ''</ul>'' @ [NL] @ ''text''"
    by code_simp
  have l: "parseLists html = join [NL] (listFinish (listLoop (split_on NL html)))"
    by (simp add: parseLists_def parseListLines_def)
  have b: "inList (listLoop pre) \<longrightarrow>
        (listType (listLoop pre) = ''ul'' \<or> listType (listLoop pre) = ''ol'')"
    by (rule listLoop_type)
  have c: "inList (listLoop pre) \<Longrightarrow>
      listType (listLoop pre) = ''ol'' \<and> match_re ulRegex line = Some m \<Longrightarrow>
      result (listLoop (pre @ [line])) =
        result (listLoop pre) @ [''</ol>'', ''<ul>'', listItem m]"
    by (simp add: listLoop_snoc listStep_def closeTag_def)
  have d: "inList (listLoop pre) \<Longrightarrow>
      listType (listLoop pre) = ''ul'' \<and> match_re ulRegex line = None
        \<and> match_re olRegex line = Some m \<Longrightarrow>
      result (listLoop (pre @ [line])) =
        result (listLoop pre) @ [''</ul>'', ''<ol>'', listItem m]"
    by (simp add: listLoop_snoc listStep_def closeTag_def)
  have e: "inList (listLoop pre) \<Longrightarrow>
      match_re ulRegex line = None \<and> match_re olRegex line = None \<Longrightarrow>
      result (listLoop (pre @ [line])) =
        result (listLoop pre) @ [closeTag (listType (listLoop pre)), line]
      \<and> \<not> inList (listLoop (pre @ [line]))"
    by (simp add: listLoop_snoc listStep_def)
  from s t a l b c d e show ?thesis by blast
qed

theorem list_pass_closes_open_list_witness:
  "inList (listLoop [''- a'', ''- b''])
   \<and> listType (listLoop [''- a'', ''- b'']) = ''ul''
   \<and> match_re ulRegex ''1. c'' = None
   \<and> match_re olRegex ''1. c'' = Some (MState (Some CHR ''c'') [] [(1, ''c'')])
   \<and> result (listLoop ([''- a'', ''- b''] @ [''1. c''])) =
       result (listLoop [''- a'', ''- b''])
       @ [''</ul>'', ''<ol>'', listItem (MState (Some CHR ''c'') [] [(1, ''c'')])]"
proof -
  have h1: "inList (listLoop [''- a'', ''- b''])"
    by code_simp
  have h2: "listType (listLoop [''- a'', ''- b'']) = ''ul''"
    by code_simp
  have h3: "match_re ulRegex ''1. c'' = None"
    by code_simp
  have h4: "match_re olRegex ''1. c'' = Some (MState (Some CHR ''c'') [] [(1, ''c'')])"
    by code_simp
  show ?thesis
    using h1 h2 h3 h4
      list_pass_closes_open_list[where pre = "[''- a'', ''- b'']" and line = "''1. c''"
        and m = "MState (Some CHR ''c'') [] [(1, ''c'')]"]
    by blast
qed

text \<open>
  C8. \<open>![a](p.png "c"){.x}\<close> matches the captioned and the classed image syntax (each pass
  alone rewrites it), and the captioned form wins: the output of the transformer has the
  figure with the caption c for the source p.png, and no class x. The three image passes
  run in the order captioned, classed, plain, each on the output of the one before.
  The classed form wins over the plain one: \<open>![a](p.png){.x}\<close>, which the plain pass
  alone would rewrite leaving \<open>{.x}\<close> behind, becomes the image with the class x; and
  \<open>![a](p.png)\<close>, which the captioned and the classed pass leave alone, becomes the
  plain image. In general an image written with a caption and a class marker,
  \<open>![alt](src "caption"){.cls}\<close> (no \<open>]\<close> in the alternative text, no \<open>)\<close> or quote in the
  non-empty source, no quote in the non-empty caption, and no \<open>!\<close> in any of them), leaves
  the image passes as the figure of the captioned form followed by the class marker.
\<close>

theorem captioned_image_wins:
  "parseCaptionedImages default_config imageInput = imageFigure @ ''{.x}''
   \<and> parseClassedImages default_config imageInput =
       ''<img src='' @ [DQ] @ ''../assets/p.png '' @ [DQ] @ ''c'' @ [DQ] @ [DQ]
       @ '' alt='' @ [DQ] @ ''a'' @ [DQ] @ '' class='' @ [DQ] @ ''x'' @ [DQ]
       @ '' loading='' @ [DQ] @ ''lazy'' @ [DQ] @ ''>''
   \<and> includes_str (parseMarkdown default_config imageInput)
        (''<img src='' @ [DQ] @ ''../assets/p.png'' @ [DQ])
   \<and> includes_str (parseMarkdown default_config imageInput)
        (''<figcaption class='' @ [DQ] @ ''figure-caption'' @ [DQ] @ ''>c</figcaption>'')
   \<and> \<not> includes_str (parseMarkdown default_config imageInput) (''class='' @ [DQ] @ ''x'' @ [DQ])
   \<and> parseImages cfg html =
       parsePlainImages cfg (parseClassedImages cfg (parseCaptionedImages cfg html))
   \<and> parseCaptionedImages default_config ''![a](p.png){.x}'' = ''![a](p.png){.x}''
   \<and> parsePlainImages default_config ''![a](p.png){.x}'' =
       ''<img src='' @ [DQ] @ ''../assets/p.png'' @ [DQ] @ '' alt='' @ [DQ] @ ''a'' @ [DQ]
       @ '' loading='' @ [DQ] @ ''lazy'' @ [DQ] @ ''>{.x}''
   \<and> parseImages default_config ''![a](p.png){.x}'' =
       ''<img src='' @ [DQ] @ ''../assets/p.png'' @ [DQ] @ '' alt='' @ [DQ] @ ''a'' @ [DQ]
       @ '' class='' @ [DQ] @ ''x'' @ [DQ] @ '' loading='' @ [DQ] @ ''lazy'' @ [DQ] @ ''>''
   \<and> parseCaptionedImages default_config ''![a](p.png)'' = ''![a](p.png)''
   \<and> parseClassedImages default_config ''![a](p.png)'' = ''![a](p.png)''
   \<and> parseImages default_config ''![a](p.png)'' =
       ''<img src='' @ [DQ] @ ''../assets/p.png'' @ [DQ] @ '' alt='' @ [DQ] @ ''a'' @ [DQ]
       @ '' loading='' @ [DQ] @ ''lazy'' @ [DQ] @ ''>''
   \<and> parseMarkdown default_config ''![a](p.png){.x}'' =
       ''<p><img src='' @ [DQ] @ ''../assets/p.png'' @ [DQ] @ '' alt='' @ [DQ] @ ''a'' @ [DQ]
       @ '' class='' @ [DQ] @ ''x'' @ [DQ] @ '' loading='' @ [DQ] @ ''lazy'' @ [DQ] @ ''></p>''
   \<and> parseMarkdown default_config ''![a](p.png)'' =
       ''<p><img src='' @ [DQ] @ ''../assets/p.png'' @ [DQ] @ '' alt='' @ [DQ] @ ''a'' @ [DQ]
       @ '' loading='' @ [DQ] @ ''lazy'' @ [DQ] @ ''></p>''
   \<and> (CHR '']'' \<notin> set alt \<and> src \<noteq> [] \<and> (\<forall>c \<in> set src. c \<noteq> CHR '')'' \<and> c \<noteq> DQ)
        \<and> caption \<noteq> [] \<and> DQ \<notin> set caption
        \<and> CHR ''!'' \<notin> set (alt @ resolveImagePath cfg src @ caption @ cls) \<longrightarrow>
       parseImages cfg
         (''!['' @ alt @ '']('' @ src @ '' '' @ [DQ] @ caption @ [DQ] @ ''){.'' @ cls @ ''}'') =
       captionedImage cfg alt src caption @ ''{.'' @ cls @ ''}'')"
proof -
  have a: "parseCaptionedImages default_config imageInput = imageFigure @ ''{.x}''"
    by code_simp
  have b: "parseClassedImages default_config imageInput =
       ''<img src='' @ [DQ] @ ''../assets/p.png '' @ [DQ] @ ''c'' @ [DQ] @ [DQ]
       @ '' alt='' @ [DQ] @ ''a'' @ [DQ] @ '' class='' @ [DQ] @ ''x'' @ [DQ]
       @ '' loading='' @ [DQ] @ ''lazy'' @ [DQ] @ ''>''"
    by code_simp
  have c: "includes_str (parseMarkdown default_config imageInput)
        (''<img src='' @ [DQ] @ ''../assets/p.png'' @ [DQ])"
    by code_simp
  have d: "includes_str (parseMarkdown default_config imageInput)
        (''<figcaption class='' @ [DQ] @ ''figure-caption'' @ [DQ] @ ''>c</figcaption>'')"
    by code_simp
  have e: "\<not> includes_str (parseMarkdown default_config imageInput) (''class='' @ [DQ] @ ''x'' @ [DQ])"
    by code_simp
  have f: "parseImages cfg html =
       parsePlainImages cfg (parseClassedImages cfg (parseCaptionedImages cfg html))"
    by (simp add: parseImages_def)
  have k1: "parseCaptionedImages default_config ''![a](p.png){.x}'' = ''![a](p.png){.x}''"
    by code_simp
  have k2: "parsePlainImages default_config ''![a](p.png){.x}'' =
       ''<img src='' @ [DQ] @ ''../assets/p.png'' @ [DQ] @ '' alt='' @ [DQ] @ ''a'' @ [DQ]
       @ '' loading='' @ [DQ] @ ''lazy'' @ [DQ] @ ''>{.x}''"
    by code_simp
  have k3: "parseImages default_config ''![a](p.png){.x}'' =
       ''<img src='' @ [DQ] @ ''../assets/p.png'' @ [DQ] @ '' alt='' @ [DQ] @ ''a'' @ [DQ]
       @ '' class='' @ [DQ] @ ''x'' @ [DQ] @ '' loading='' @ [DQ] @ ''lazy'' @ [DQ] @ ''>''"
    by code_simp
  have p1: "parseCaptionedImages default_config ''![a](p.png)'' = ''![a](p.png)''"
    by code_simp
  have p2: "parseClassedImages default_config ''![a](p.png)'' = ''![a](p.png)''"
    by code_simp
  have p3: "parseImages default_config ''![a](p.png)'' =
       ''<img src='' @ [DQ] @ ''../assets/p.png'' @ [DQ] @ '' alt='' @ [DQ] @ ''a'' @ [DQ]
       @ '' loading='' @ [DQ] @ ''lazy'' @ [DQ] @ ''>''"
    by code_simp
  have m1: "parseMarkdown default_config ''![a](p.png){.x}'' =
       ''<p><img src='' @ [DQ] @ ''../assets/p.png'' @ [DQ] @ '' alt='' @ [DQ] @ ''a'' @ [DQ]
       @ '' class='' @ [DQ] @ ''x'' @ [DQ] @ '' loading='' @ [DQ] @ ''lazy'' @ [DQ] @ ''></p>''"
    by code_simp
  have m2: "parseMarkdown default_config ''![a](p.png)'' =
       ''<p><img src='' @ [DQ] @ ''../assets/p.png'' @ [DQ] @ '' alt='' @ [DQ] @ ''a'' @ [DQ]
       @ '' loading='' @ [DQ] @ ''lazy'' @ [DQ] @ ''></p>''"
    by code_simp
  have g: "CHR '']'' \<notin> set alt \<and> src \<noteq> [] \<and> (\<forall>c \<in> set src. c \<noteq> CHR '')'' \<and> c \<noteq> DQ)
        \<and> caption \<noteq> [] \<and> DQ \<notin> set caption
        \<and> CHR ''!'' \<notin> set (alt @ resolveImagePath cfg src @ caption @ cls) \<longrightarrow>
       parseImages cfg
         (''!['' @ alt @ '']('' @ src @ '' '' @ [DQ] @ caption @ [DQ] @ ''){.'' @ cls @ ''}'') =
       captionedImage cfg alt src caption @ ''{.'' @ cls @ ''}''"
    using parseImages_combined[of alt src caption cfg cls] by blast
  from a b c d e f k1 k2 k3 p1 p2 p3 m1 m2 g show ?thesis by blast
qed

theorem captioned_image_wins_witness:
  "CHR '']'' \<notin> set ''a'' \<and> ''p.png'' \<noteq> [] \<and> list_all (\<lambda>c. c \<noteq> CHR '')'' \<and> c \<noteq> DQ) ''p.png''
   \<and> ''c'' \<noteq> [] \<and> DQ \<notin> set ''c''
   \<and> CHR ''!'' \<notin> set (''a'' @ resolveImagePath default_config ''p.png'' @ ''c'' @ ''x'')
   \<and> parseImages default_config imageInput = imageFigure @ ''{.x}''"
proof -
  have h1: "CHR '']'' \<notin> set ''a''"
    by simp
  have h2: "''p.png'' \<noteq> []"
    by simp
  have h3': "list_all (\<lambda>c. c \<noteq> CHR '')'' \<and> c \<noteq> DQ) ''p.png''"
    by simp
  then have h3: "\<forall>c \<in> set ''p.png''. c \<noteq> CHR '')'' \<and> c \<noteq> DQ"
    by (simp only: list_all_iff)
  have h4: "''c'' \<noteq> []"
    by simp
  have h5: "DQ \<notin> set ''c''"
    by simp
  have h6: "CHR ''!'' \<notin> set (''a'' @ resolveImagePath default_config ''p.png'' @ ''c'' @ ''x'')"
    by code_simp
  have i: "''!['' @ ''a'' @ '']('' @ ''p.png'' @ '' '' @ [DQ] @ ''c'' @ [DQ] @ ''){.'' @ ''x'' @ ''}'' =
           imageInput"
    by code_simp
  have o: "captionedImage default_config ''a'' ''p.png'' ''c'' @ ''{.'' @ ''x'' @ ''}'' =
           imageFigure @ ''{.x}''"
    by code_simp
  note th = captioned_image_wins[where alt = "''a''" and src = "''p.png''" and caption = "''c''"
      and cls = "''x''" and cfg = default_config]
  from th h1 h2 h3 h4 h5 h6
  have "parseImages default_config
         (''!['' @ ''a'' @ '']('' @ ''p.png'' @ '' '' @ [DQ] @ ''c'' @ [DQ] @ ''){.'' @ ''x'' @ ''}'') =
       captionedImage default_config ''a'' ''p.png'' ''c'' @ ''{.'' @ ''x'' @ ''}''"
    by blast
  then have "parseImages default_config imageInput = imageFigure @ ''{.x}''"
    unfolding i o .
  with h1 h2 h3' h4 h5 h6 show ?thesis by blast
qed

text \<open>
  C9. The retry timer that a call of \<open>init\<close> installs runs its callback on at most 3
  ticks and then cancels itself: from the fourth period on no load is attempted for any
  container, whatever the containers' state, and on each of the first three ticks exactly
  the containers whose snapshot is still unset are loaded again.
\<close>

theorem retry_timer_cap:
  assumes "runTimer (initTimer cs0) css = (t, calls)"
  shows "attempts t \<le> 3
    \<and> (\<forall>k. 3 \<le> k \<and> k < length css \<longrightarrow> calls ! k = [])
    \<and> (3 \<le> length css \<longrightarrow> \<not> active t)
    \<and> (cs0 \<noteq> [] \<longrightarrow> (\<forall>k. k < 3 \<and> k < length css \<longrightarrow>
          calls ! k = map contentSource (filter unrendered (css ! k))))"
proof -
  have inv: "active (initTimer cs0) \<longrightarrow> attempts (initTimer cs0) < maxAttempts"
    "attempts (initTimer cs0) \<le> maxAttempts"
    by (simp_all add: initTimer_def maxAttempts_def)
  from runTimer_attempts[OF inv, of css] assms
  have 1: "attempts t \<le> 3" and 3: "3 \<le> length css \<longrightarrow> \<not> active t"
    by (auto simp: maxAttempts_def initTimer_def)
  have c: "\<And>k. k < length css \<Longrightarrow> calls ! k =
     (if active (initTimer cs0) \<and> attempts (initTimer cs0) + k < maxAttempts
      then map contentSource (filter unrendered (css ! k)) else [])"
    using runTimer_calls[OF _ inv(1), of _ css] assms by simp
  have 2: "\<forall>k. 3 \<le> k \<and> k < length css \<longrightarrow> calls ! k = []"
    using c by (auto simp: maxAttempts_def initTimer_def)
  have 4: "cs0 \<noteq> [] \<longrightarrow> (\<forall>k. k < 3 \<and> k < length css \<longrightarrow>
           calls ! k = map contentSource (filter unrendered (css ! k)))"
    using c by (auto simp: maxAttempts_def initTimer_def)
  from 1 2 3 4 show ?thesis by blast
qed

theorem retry_timer_cap_witness:
  "runTimer (initTimer [oldContainer]) (replicate 5 [oldContainer]) =
     (\<lparr> attempts = 3, active = False \<rparr>, [[''a.md''], [''a.md''], [''a.md''], [], []])
   \<and> [oldContainer] \<noteq> []
   \<and> [[''a.md''], [''a.md''], [''a.md''], [], []] ! 4 = ([] :: string list)
   \<and> [[''a.md''], [''a.md''], [''a.md''], [], []] ! 2 =
       map contentSource (filter unrendered (replicate 5 [oldContainer] ! 2))"
proof -
  have h: "runTimer (initTimer [oldContainer]) (replicate 5 [oldContainer]) =
     (\<lparr> attempts = 3, active = False \<rparr>, [[''a.md''], [''a.md''], [''a.md''], [], []])"
    by code_simp
  have n: "[oldContainer] \<noteq> []"
    by simp
  note r = retry_timer_cap[OF h]
  have late: "3 \<le> (4::nat) \<and> 4 < length (replicate 5 [oldContainer])"
    by simp
  have early: "(2::nat) < 3 \<and> 2 < length (replicate 5 [oldContainer])"
    by simp
  from r late have a: "[[''a.md''], [''a.md''], [''a.md''], [], []] ! 4 = ([] :: string list)"
    by blast
  from r n early have b: "[[''a.md''], [''a.md''], [''a.md''], [], []] ! 2 =
       map contentSource (filter unrendered (replicate 5 [oldContainer] ! 2))"
    by blast
  from h n a b show ?thesis by blast
qed

text \<open>
  C10. For \<open>![a](p.png "c"){.x}\<close> the captioned image pattern matches at the start and
  consumes the text through the closing parenthesis only (what is left is \<open>{.x}\<close>), and
  the output of the transformer is the figure followed at once by the literal text
  \<open>{.x}\<close>.
\<close>

theorem class_marker_left_behind:
  "exec_at captionedImageRegex None imageInput =
     Some (MState (Some CHR '')'') ''{.x}'' [(3, ''c''), (2, ''p.png''), (1, ''a'')])
   \<and> parseMarkdown default_config imageInput = imageFigure @ ''{.x}''"
proof -
  have a: "exec_at captionedImageRegex None imageInput =
     Some (MState (Some CHR '')'') ''{.x}'' [(3, ''c''), (2, ''p.png''), (1, ''a'')])"
    by code_simp
  have b: "parseMarkdown default_config imageInput = imageFigure @ ''{.x}''"
    by code_simp
  from a b show ?thesis by (rule conjI)
qed

end
